theory Spec2Isabelle
  imports Main "HOL-Library.AList" "HOL-Library.Log_Nat"
begin

section \<open>Data model of the critical-path engine\<close>

text \<open>
  The engine is the TypeScript module with \<open>calculateCPM\<close>, \<open>topologicalSort\<close> and
  \<open>analyzeResourceAllocation\<close>, over the interfaces \<open>CPMInput\<close>, \<open>CPMNode\<close> and
  \<open>CPMResult\<close>.

  Numbers. Durations, progress values and all schedule times are integers and are modelled
  as \<open>int\<close>. The only non-finite number the module can produce from such inputs is the
  \<open>-Infinity\<close> that \<open>Math.max()\<close> returns for an empty argument list; it can only reach
  \<open>projectDuration\<close>, whose type \<open>jsnum\<close> therefore has it as a value of its own.

  Two expressions of the source are evaluated in double-precision arithmetic with a
  non-integer intermediate value: \<open>Math.ceil(duration * (1 - progress / 100))\<close> and
  \<open>totalDuration > projectDuration * 0.7\<close>. Each is a parameter of the functions that
  use it (\<open>ceilRemaining\<close> and \<open>exceeds\<close>), so that what does not depend on the
  rounding is proved for every rounding. The engine itself is the instance with
  \<open>doubleCeil\<close> and \<open>doubleExceeds\<close>, which evaluate the two expressions as
  IEEE 754 doubles do (section Double-precision arithmetic). \<open>exactCeil\<close> is the same
  formula in exact arithmetic: it is the engine's value at the progress values 0, 50 and
  150 used in the evaluations, and for a progress from 0 to 100 the engine's value is
  \<open>exactCeil\<close> or one more.
\<close>

datatype jsnum = NegInfinity | Num int

record CPMInput =
  ident :: string
  name :: string
  duration :: int
  dependencies :: "string list"
  status :: string
  progress :: int
  assigneeId :: "string option"
  assigneeName :: "string option"

record CPMNode = CPMInput +
  es :: int
  ef :: int
  ls :: int
  lf :: int
  float :: int
  isCritical :: bool

record CPMResult =
  nodes :: "CPMNode list"
  criticalPath :: "string list"
  projectDuration :: jsnum

text \<open>
  What the source can do instead of returning: \<open>TypeError\<close> is the exception of a
  property write on \<open>undefined\<close> (after \<open>nodes.get(id)!\<close>); \<open>UndefinedValue\<close> stands
  for a non-null assertion \<open>!\<close> that lets \<open>undefined\<close> through into a value of a
  declared type, which the records above cannot represent.
\<close>

datatype error = TypeError | UndefinedValue

subsection \<open>The JavaScript Map\<close>

text \<open>
  A \<open>Map\<close> iterates in the order in which its keys were first inserted, and \<open>set\<close> on
  a present key replaces the value in place. It is an association list with distinct keys:
  \<open>Map_set\<close> is \<open>AList.update\<close>, \<open>Map_get\<close> is \<open>map_of\<close>.
\<close>

type_synonym ('k, 'v) Map = "('k \<times> 'v) list"

abbreviation Map_get :: "'k \<Rightarrow> ('k, 'v) Map \<Rightarrow> 'v option" where
  "Map_get k m \<equiv> map_of m k"

abbreviation Map_set :: "'k \<Rightarrow> 'v \<Rightarrow> ('k, 'v) Map \<Rightarrow> ('k, 'v) Map" where
  "Map_set k v m \<equiv> AList.update k v m"

text \<open>\<open>m.get(k) || []\<close> for a map of arrays.\<close>

definition getOrEmpty :: "'k \<Rightarrow> ('k, 'v list) Map \<Rightarrow> 'v list" where
  "getOrEmpty k m = (case Map_get k m of None \<Rightarrow> [] | Some vs \<Rightarrow> vs)"

text \<open>\<open>xs.forEach(f)\<close> for a callback that may throw: the first exception ends the loop.\<close>

fun forEach :: "('a \<Rightarrow> 's \<Rightarrow> error + 's) \<Rightarrow> 'a list \<Rightarrow> 's \<Rightarrow> error + 's" where
  "forEach f [] s = Inr s"
| "forEach f (x # xs) s = (case f x s of Inl e \<Rightarrow> Inl e | Inr s' \<Rightarrow> forEach f xs s')"

text \<open>\<open>Math.max(...xs)\<close>: \<open>-Infinity\<close> for no arguments.\<close>

definition Math_max :: "int list \<Rightarrow> jsnum" where
  "Math_max xs = (if xs = [] then NegInfinity else Num (Max (set xs)))"

section \<open>calculateCPM\<close>

subsection \<open>Adjacency maps\<close>

definition buildTaskMap :: "CPMInput list \<Rightarrow> (string, CPMInput) Map" where
  "buildTaskMap tasks = fold (\<lambda>t m. Map_set (ident t) t m) tasks []"

text \<open>
  The first loop over the tasks sets \<open>successors[t.id] = []\<close> and
  \<open>predecessors[t.id] = [...t.dependencies]\<close>; the two maps are independent, so each is
  a fold of its own.
\<close>

definition initSuccessors :: "CPMInput list \<Rightarrow> (string, string list) Map" where
  "initSuccessors tasks = fold (\<lambda>t m. Map_set (ident t) [] m) tasks []"

definition buildPredecessors :: "CPMInput list \<Rightarrow> (string, string list) Map" where
  "buildPredecessors tasks = fold (\<lambda>t m. Map_set (ident t) (dependencies t) m) tasks []"

text \<open>
  \<open>const succs = successors.get(depId); if (succs) succs.push(t.id)\<close>: a dependency on
  an id that is no task adds no edge.
\<close>

definition addSuccessor ::
  "string \<Rightarrow> string \<Rightarrow> (string, string list) Map \<Rightarrow> (string, string list) Map" where
  "addSuccessor tid depId successors =
     (case Map_get depId successors of
        None \<Rightarrow> successors
      | Some succs \<Rightarrow> Map_set depId (succs @ [tid]) successors)"

definition buildSuccessors :: "CPMInput list \<Rightarrow> (string, string list) Map" where
  "buildSuccessors tasks =
     fold (\<lambda>t m. fold (addSuccessor (ident t)) (dependencies t) m) tasks (initSuccessors tasks)"

subsection \<open>topologicalSort (Kahn's algorithm)\<close>

definition initInDegree ::
  "CPMInput list \<Rightarrow> (string, string list) Map \<Rightarrow> (string, int) Map" where
  "initInDegree tasks predecessors =
     fold (\<lambda>t m. Map_set (ident t) (int (length (getOrEmpty (ident t) predecessors))) m) tasks []"

definition seedQueue :: "(string, int) Map \<Rightarrow> string list" where
  "seedQueue inDegree = map fst (filter (\<lambda>(i, deg). deg = 0) inDegree)"

text \<open>
  The body of the inner \<open>forEach\<close>: \<open>newDeg = (inDegree.get(succId) || 1) - 1\<close>, where
  \<open>||\<close> takes its right operand for \<open>undefined\<close> and for \<open>0\<close>.
\<close>

definition relax ::
  "string \<Rightarrow> (string, int) Map \<times> string list \<Rightarrow> (string, int) Map \<times> string list" where
  "relax succId st =
     (case st of (inDegree, queue) \<Rightarrow>
        let newDeg = (case Map_get succId inDegree of
                        None \<Rightarrow> 1
                      | Some d \<Rightarrow> if d = 0 then 1 else d) - 1
        in (Map_set succId newDeg inDegree,
            if newDeg = 0 then queue @ [succId] else queue))"

text \<open>
  The \<open>while (queue.length > 0)\<close> loop. Nothing in the source bounds its iterations, so
  it is a partial function: \<open>None\<close> is a loop that never ends.
\<close>

partial_function (option) kahnLoop ::
  "(string, string list) Map \<Rightarrow> (string, int) Map \<Rightarrow> string list \<Rightarrow> string list
     \<Rightarrow> string list option" where
  "kahnLoop successors inDegree queue sortedIds =
     (case queue of
        [] \<Rightarrow> Some sortedIds
      | i # rest \<Rightarrow>
          (case fold relax (getOrEmpty i successors) (inDegree, rest) of
             (inDegree', queue') \<Rightarrow> kahnLoop successors inDegree' queue' (sortedIds @ [i])))"

declare kahnLoop.simps [code]

definition topologicalSort ::
  "CPMInput list \<Rightarrow> (string, string list) Map \<Rightarrow> (string, string list) Map
     \<Rightarrow> string list option" where
  "topologicalSort tasks predecessors successors =
     kahnLoop successors (initInDegree tasks predecessors)
       (seedQueue (initInDegree tasks predecessors)) []"

subsection \<open>The passes\<close>

text \<open>
  The ceiling of \<open>duration * (1 - progress / 100)\<close> in exact arithmetic; the engine's
  value is \<open>doubleCeil\<close> below.
\<close>

definition exactCeil :: "int \<Rightarrow> int \<Rightarrow> int" where
  "exactCeil d p = - ((d * (p - 100)) div 100)"

definition effectiveDuration :: "(int \<Rightarrow> int \<Rightarrow> int) \<Rightarrow> 'a CPMInput_scheme \<Rightarrow> int" where
  "effectiveDuration ceilRemaining node =
     (if status node = ''completed'' then 0
      else ceilRemaining (duration node) (progress node))"

definition newNode :: "CPMInput \<Rightarrow> CPMNode" where
  "newNode task =
     CPMInput.extend task
       (CPMNode.fields 0 0 0 0 0 False)"

definition initNodes ::
  "(string, CPMInput) Map \<Rightarrow> string list \<Rightarrow> error + (string, CPMNode) Map" where
  "initNodes taskMap sortedIds =
     forEach (\<lambda>i nodeMap.
        case Map_get i taskMap of
          None \<Rightarrow> Inl UndefinedValue
        | Some task \<Rightarrow> Inr (Map_set i (newNode task) nodeMap)) sortedIds []"

text \<open>\<open>nodes.get(pId)?.ef ?? 0\<close>\<close>

definition efOr0 :: "(string, CPMNode) Map \<Rightarrow> string \<Rightarrow> int" where
  "efOr0 nodeMap pId = (case Map_get pId nodeMap of None \<Rightarrow> 0 | Some p \<Rightarrow> ef p)"

text \<open>\<open>nodes.get(sId)?.ls ?? projectDuration\<close>\<close>

definition lsOr :: "int \<Rightarrow> (string, CPMNode) Map \<Rightarrow> string \<Rightarrow> int" where
  "lsOr pd nodeMap sId = (case Map_get sId nodeMap of None \<Rightarrow> pd | Some s \<Rightarrow> ls s)"

text \<open>
  One iteration of the forward pass. \<open>Math.max\<close> is called on a non-empty list of
  integers there, so its value is the greatest of them.
\<close>

definition forwardStep ::
  "(int \<Rightarrow> int \<Rightarrow> int) \<Rightarrow> (string, string list) Map \<Rightarrow> string \<Rightarrow> (string, CPMNode) Map
     \<Rightarrow> error + (string, CPMNode) Map" where
  "forwardStep ceilRemaining predecessors i nodeMap =
     (case Map_get i nodeMap of
        None \<Rightarrow> Inl TypeError
      | Some node \<Rightarrow>
          let preds = getOrEmpty i predecessors;
              node1 = node\<lparr>es := (if preds = [] then 0 else Max (set (map (efOr0 nodeMap) preds)))\<rparr>;
              node2 = node1\<lparr>ef := es node1 + effectiveDuration ceilRemaining node1\<rparr>
          in Inr (Map_set i node2 nodeMap))"

text \<open>One iteration of the backward pass; \<open>Math.min\<close> likewise.\<close>

definition backwardStep ::
  "(int \<Rightarrow> int \<Rightarrow> int) \<Rightarrow> (string, string list) Map \<Rightarrow> int \<Rightarrow> string \<Rightarrow> (string, CPMNode) Map
     \<Rightarrow> error + (string, CPMNode) Map" where
  "backwardStep ceilRemaining successors pd i nodeMap =
     (case Map_get i nodeMap of
        None \<Rightarrow> Inl TypeError
      | Some node \<Rightarrow>
          let succs = getOrEmpty i successors;
              node1 = node\<lparr>lf := (if succs = [] then pd else Min (set (map (lsOr pd nodeMap) succs)))\<rparr>;
              node2 = node1\<lparr>ls := lf node1 - effectiveDuration ceilRemaining node1\<rparr>
          in Inr (Map_set i node2 nodeMap))"

text \<open>
  \<open>nodes.forEach\<close> visits the values in the map's order, sets \<open>float\<close> and
  \<open>isCritical\<close>, and pushes the ids of the critical ones.
\<close>

definition markFloat :: "CPMNode \<Rightarrow> CPMNode" where
  "markFloat node = node\<lparr>float := ls node - es node, isCritical := (ls node - es node = 0)\<rparr>"

definition floatPass :: "(string, CPMNode) Map \<Rightarrow> (string, CPMNode) Map" where
  "floatPass nodeMap = map (\<lambda>(k, node). (k, markFloat node)) nodeMap"

definition collectCritical :: "(string, CPMNode) Map \<Rightarrow> string list" where
  "collectCritical nodeMap = map (\<lambda>(k, node). ident node) (filter (\<lambda>(k, node). isCritical node) nodeMap)"

text \<open>
  \<open>criticalPath.sort((a, b) => (nodes.get(a)?.es ?? 0) - (nodes.get(b)?.es ?? 0))\<close>:
  \<open>Array.prototype.sort\<close> is stable, and so is \<open>sort_key\<close>.
\<close>

definition esOr0 :: "(string, CPMNode) Map \<Rightarrow> string \<Rightarrow> int" where
  "esOr0 nodeMap a = (case Map_get a nodeMap of None \<Rightarrow> 0 | Some n \<Rightarrow> es n)"

definition sortByES :: "(string, CPMNode) Map \<Rightarrow> string list \<Rightarrow> string list" where
  "sortByES nodeMap path = sort_key (esOr0 nodeMap) path"

text \<open>\<open>sorted.map((id) => nodes.get(id)!)\<close>\<close>

fun collectNodes :: "(string, CPMNode) Map \<Rightarrow> string list \<Rightarrow> error + CPMNode list" where
  "collectNodes nodeMap [] = Inr []"
| "collectNodes nodeMap (i # is) =
     (case Map_get i nodeMap of
        None \<Rightarrow> Inl UndefinedValue
      | Some n \<Rightarrow> (case collectNodes nodeMap is of Inl e \<Rightarrow> Inl e | Inr ns \<Rightarrow> Inr (n # ns)))"

text \<open>
  Everything after the topological sort. When \<open>Math.max\<close> over the nodes' \<open>ef\<close> is
  \<open>-Infinity\<close> the map \<open>nodes\<close> is empty, hence so is \<open>sorted\<close>, and the remaining
  loops have nothing to visit: the result is the three empty-handed values.
\<close>

definition schedule ::
  "(int \<Rightarrow> int \<Rightarrow> int) \<Rightarrow> (string, CPMInput) Map \<Rightarrow> (string, string list) Map
     \<Rightarrow> (string, string list) Map \<Rightarrow> string list \<Rightarrow> error + CPMResult" where
  "schedule ceilRemaining taskMap predecessors successors sortedIds =
     (case initNodes taskMap sortedIds of
        Inl e \<Rightarrow> Inl e
      | Inr nodeMap0 \<Rightarrow>
     (case forEach (forwardStep ceilRemaining predecessors) sortedIds nodeMap0 of
        Inl e \<Rightarrow> Inl e
      | Inr nodeMap1 \<Rightarrow>
     (case Math_max (map (\<lambda>(k, n). ef n) nodeMap1) of
        NegInfinity \<Rightarrow> Inr \<lparr>nodes = [], criticalPath = [], projectDuration = NegInfinity\<rparr>
      | Num pd \<Rightarrow>
     (case forEach (backwardStep ceilRemaining successors pd) (rev sortedIds) nodeMap1 of
        Inl e \<Rightarrow> Inl e
      | Inr nodeMap2 \<Rightarrow>
     (let nodeMap3 = floatPass nodeMap2;
          path = sortByES nodeMap3 (collectCritical nodeMap3)
      in case collectNodes nodeMap3 sortedIds of
           Inl e \<Rightarrow> Inl e
         | Inr ns \<Rightarrow> Inr \<lparr>nodes = ns, criticalPath = path, projectDuration = Num pd\<rparr>)))))"

text \<open>
  The function itself. \<open>None\<close>: the sort's loop does not end; \<open>Some (Inl e)\<close>: an
  exception; \<open>Some (Inr r)\<close>: it returns \<open>r\<close>.
\<close>

definition calculateCPM ::
  "(int \<Rightarrow> int \<Rightarrow> int) \<Rightarrow> CPMInput list \<Rightarrow> (error + CPMResult) option" where
  "calculateCPM ceilRemaining tasks =
     (if tasks = [] then Some (Inr \<lparr>nodes = [], criticalPath = [], projectDuration = Num 0\<rparr>)
      else
        let taskMap = buildTaskMap tasks;
            predecessors = buildPredecessors tasks;
            successors = buildSuccessors tasks
        in case topologicalSort tasks predecessors successors of
             None \<Rightarrow> None
           | Some sortedIds \<Rightarrow> Some (schedule ceilRemaining taskMap predecessors successors sortedIds))"
section \<open>analyzeResourceAllocation\<close>

text \<open>
  The accumulator of the source, \<open>{ name, tasks, criticalTasks, totalDuration }\<close>
  (\<open>name\<close> and \<open>tasks\<close> carry the prefix \<open>load\<close> here), and an entry of the returned
  \<open>developerLoad\<close> array, \<open>{ developerId: id, ...load }\<close>.
\<close>

record Load =
  loadName :: string
  loadTasks :: int
  criticalTasks :: int
  totalDuration :: int

record DeveloperLoad = Load +
  developerId :: string

record ResourceAnalysis =
  developerLoad :: "DeveloperLoad list"
  recommendations :: "string list"

text \<open>A template literal prints an integer in decimal, with a minus sign when negative.\<close>

fun showNat :: "nat \<Rightarrow> string" where
  "showNat n =
     (if n < 10 then [''0123456789'' ! n]
      else showNat (n div 10) @ [''0123456789'' ! (n mod 10)])"

declare showNat.simps [simp del]

definition showInt :: "int \<Rightarrow> string" where
  "showInt i = (if i < 0 then CHR ''-'' # showNat (nat (- i)) else showNat (nat i))"

text \<open>\<open>node.assigneeName || "Unknown"\<close>: the default also replaces the empty string.\<close>

definition displayName :: "CPMNode \<Rightarrow> string" where
  "displayName node =
     (case assigneeName node of
        None \<Rightarrow> ''Unknown''
      | Some n \<Rightarrow> if n = [] then ''Unknown'' else n)"

text \<open>
  The body of \<open>result.nodes.forEach\<close>. \<open>if (!node.assigneeId) return\<close> leaves the map
  alone for an absent id and for the empty string.
\<close>

definition accumulate :: "CPMNode \<Rightarrow> (string, Load) Map \<Rightarrow> (string, Load) Map" where
  "accumulate node loadMap =
     (case assigneeId node of
        None \<Rightarrow> loadMap
      | Some a \<Rightarrow>
          if a = [] then loadMap
          else
            let existing =
                  (case Map_get a loadMap of
                     Some l \<Rightarrow> l
                   | None \<Rightarrow> \<lparr>loadName = displayName node, loadTasks = 0,
                               criticalTasks = 0, totalDuration = 0\<rparr>);
                e1 = existing\<lparr>loadTasks := loadTasks existing + 1\<rparr>;
                e2 = (if isCritical node then e1\<lparr>criticalTasks := criticalTasks e1 + 1\<rparr> else e1);
                e3 = e2\<lparr>totalDuration := totalDuration e2 + duration node\<rparr>
            in Map_set a e3 loadMap)"

definition criticalMessage :: "string \<Rightarrow> string \<Rightarrow> int \<Rightarrow> string" where
  "criticalMessage nm devId n =
     nm @ '' ('' @ devId @ '') has '' @ showInt n
        @ '' critical tasks. Consider redistributing to reduce risk.''"

definition overloadMessage :: "string \<Rightarrow> int \<Rightarrow> int \<Rightarrow> string" where
  "overloadMessage nm tot cnt =
     nm @ '' is assigned '' @ showInt tot @ '' days of work across '' @ showInt cnt
        @ '' tasks. This exceeds 70% of the project timeline.''"

text \<open>
  The body of \<open>developerLoad.forEach\<close>; \<open>exceeds tot pd\<close> stands for
  \<open>tot > pd * 0.7\<close>.
\<close>

definition recommend :: "(int \<Rightarrow> jsnum \<Rightarrow> bool) \<Rightarrow> jsnum \<Rightarrow> string \<times> Load \<Rightarrow> string list" where
  "recommend exceeds pd entry =
     (case entry of (devId, load) \<Rightarrow>
        (if 3 \<le> criticalTasks load
         then [criticalMessage (loadName load) devId (criticalTasks load)] else [])
        @ (if exceeds (totalDuration load) pd
           then [overloadMessage (loadName load) (totalDuration load) (loadTasks load)] else []))"

definition toEntry :: "string \<times> Load \<Rightarrow> DeveloperLoad" where
  "toEntry entry = (case entry of (devId, load) \<Rightarrow> Load.extend load (DeveloperLoad.fields devId))"

definition analyzeResourceAllocation ::
  "(int \<Rightarrow> jsnum \<Rightarrow> bool) \<Rightarrow> CPMResult \<Rightarrow> ResourceAnalysis" where
  "analyzeResourceAllocation exceeds result =
     (let loadMap = fold accumulate (nodes result) []
      in \<lparr>developerLoad = map toEntry loadMap,
          recommendations = concat (map (recommend exceeds (projectDuration result)) loadMap)\<rparr>)"
section \<open>Double-precision arithmetic\<close>

text \<open>
  JavaScript numbers are IEEE 754 binary64 values and every arithmetic operation returns
  the exact result rounded to the nearest such value, ties to the even significand. For
  values in the normal range the rounding is \<open>fl\<close>: with \<open>2^e \<le> |x| < 2^(e+1)\<close> the
  doubles around \<open>x\<close> are the multiples of \<open>2^(e-52)\<close>. Overflow and subnormal numbers
  are not modelled (no expression of the engine reaches them from integers), and integers
  are taken as exactly representable, that is of magnitude at most \<open>2^53\<close>.
\<close>

definition pow2 :: "int \<Rightarrow> rat" where
  "pow2 k = (if 0 \<le> k then 2 ^ nat k else 1 / 2 ^ nat (- k))"

text \<open>For \<open>x > 0\<close>, the \<open>e\<close> with \<open>2^e \<le> x < 2^(e+1)\<close> (lemma \<open>binaryExponent_bounds\<close>).\<close>

definition binaryExponent :: "rat \<Rightarrow> int" where
  "binaryExponent x =
     (if 1 \<le> x then bitlen \<lfloor>x\<rfloor> - 1 else - bitlen (\<lceil>1 / x\<rceil> - 1))"

definition roundHalfEven :: "rat \<Rightarrow> int" where
  "roundHalfEven q =
     (let f = \<lfloor>q\<rfloor>; r = q - of_int f
      in if r < 1 / 2 then f else if 1 / 2 < r then f + 1 else if even f then f else f + 1)"

definition fl :: "rat \<Rightarrow> rat" where
  "fl x =
     (if x = 0 then 0
      else let u = pow2 (binaryExponent \<bar>x\<bar> - 52)
           in of_int (roundHalfEven (x / u)) * u)"

text \<open>
  \<open>Math.ceil(duration * (1 - progress / 100))\<close>: a division, a subtraction and a
  multiplication, each rounded, then the ceiling. \<open>calculateCPM doubleCeil\<close> is the
  engine's function.
\<close>

definition doubleCeil :: "int \<Rightarrow> int \<Rightarrow> int" where
  "doubleCeil d p = \<lceil>fl (of_int d * fl (1 - fl (of_int p / 100)))\<rceil>"

section \<open>Notions used in the proofs\<close>

text \<open>
  None of the following is code of the engine. \<open>successorsOf\<close> is what the successor
  map holds for a task id; \<open>kahnInv\<close> is the invariant of the sort's loop (the in-degree
  of a task is the number of its dependencies not yet placed, and a task is placed or
  queued exactly when that number is zero); \<open>topoOrder\<close> is what the sort returns for
  tasks with distinct ids; \<open>nodesFor\<close>, \<open>forwardDone\<close>, \<open>backwardDone\<close> and
  \<open>nodeOK\<close> are the invariants of the passes.
\<close>
definition successorsOf :: "CPMInput list \<Rightarrow> string \<Rightarrow> string list" where
  "successorsOf tasks p =
     concat (map (\<lambda>t. replicate (count_list (dependencies t) p) (ident t)) tasks)"

definition kahnInv ::
  "string list \<Rightarrow> (string \<Rightarrow> string list) \<Rightarrow> (string, int) Map \<Rightarrow> string list \<Rightarrow> string list \<Rightarrow> bool" where
  "kahnInv V D inDegree queue srt \<longleftrightarrow>
     map fst inDegree = V \<and> distinct (srt @ queue) \<and> set (srt @ queue) \<subseteq> set V \<and>
     (\<forall>s \<in> set V. Map_get s inDegree = Some (int (length (filter (\<lambda>d. d \<notin> set srt) (D s))))) \<and>
     (\<forall>s \<in> set V. s \<in> set (srt @ queue) \<longleftrightarrow> set (D s) \<subseteq> set srt) \<and>
     (\<forall>xs s ys. srt = xs @ s # ys \<longrightarrow> set (D s) \<subseteq> set xs)"

definition topoOrder :: "CPMInput list \<Rightarrow> string list \<Rightarrow> bool" where
  "topoOrder tasks srt \<longleftrightarrow>
     distinct srt \<and> set srt \<subseteq> ident ` set tasks \<and>
     (\<forall>t \<in> set tasks. ident t \<in> set srt \<longleftrightarrow> set (dependencies t) \<subseteq> set srt) \<and>
     (\<forall>xs ys. \<forall>t \<in> set tasks. srt = xs @ ident t # ys \<longrightarrow> set (dependencies t) \<subseteq> set xs)"

definition nodesFor :: "CPMInput list \<Rightarrow> string list \<Rightarrow> (string, CPMNode) Map \<Rightarrow> bool" where
  "nodesFor tasks srt nm \<longleftrightarrow>
     map fst nm = srt \<and>
     (\<forall>i n. Map_get i nm = Some n \<longrightarrow> ident n = i \<and> CPMInput.truncate n \<in> set tasks)"

definition forwardDone ::
  "(int \<Rightarrow> int \<Rightarrow> int) \<Rightarrow> (string, CPMNode) Map \<Rightarrow> string list \<Rightarrow> bool" where
  "forwardDone cr nm dn \<longleftrightarrow>
     (\<forall>i \<in> set dn. \<forall>n. Map_get i nm = Some n \<longrightarrow>
        ef n = es n + effectiveDuration cr n \<and>
        (\<forall>p \<in> set (dependencies n). efOr0 nm p \<le> es n))"

definition backwardDone ::
  "(int \<Rightarrow> int \<Rightarrow> int) \<Rightarrow> (string, CPMNode) Map \<Rightarrow> string list \<Rightarrow> bool" where
  "backwardDone cr nm dn \<longleftrightarrow>
     (\<forall>i \<in> set dn. \<forall>n. Map_get i nm = Some n \<longrightarrow>
        ls n = lf n - effectiveDuration cr n \<and> ef n \<le> lf n)"

definition nodeOK :: "(int \<Rightarrow> int \<Rightarrow> int) \<Rightarrow> CPMNode \<Rightarrow> bool" where
  "nodeOK cr n \<longleftrightarrow>
     ef n = es n + effectiveDuration cr n \<and> ls n = lf n - effectiveDuration cr n \<and>
     float n = ls n - es n \<and> isCritical n = (float n = 0) \<and> ef n \<le> lf n"
section \<open>Notions used to state the claims\<close>

text \<open>
  The order on project durations, with \<open>-Infinity\<close> below every number; a task with its
  status changed to \<open>completed\<close> and every other field kept.
\<close>

fun jsnum_le :: "jsnum \<Rightarrow> jsnum \<Rightarrow> bool" where
  "jsnum_le NegInfinity y = True"
| "jsnum_le (Num a) NegInfinity = False"
| "jsnum_le (Num a) (Num b) = (a \<le> b)"

definition complete :: "CPMInput \<Rightarrow> CPMInput" where
  "complete t = t\<lparr>status := ''completed''\<rparr>"

text \<open>
  For the resource analysis: the assignee of a node, if it has one (an id that is present
  and not empty); the assignees of a node list, each once, in the order of their first
  node; the nodes of one assignee; and the load that the specification describes for an
  assignee: the number of its nodes, the number of its critical nodes, the sum of their
  raw durations, under the display name of its first node.
\<close>

definition assignee :: "CPMNode \<Rightarrow> string option" where
  "assignee n = (case assigneeId n of None \<Rightarrow> None | Some a \<Rightarrow> if a = [] then None else Some a)"

definition firstOccurrences :: "'a list \<Rightarrow> 'a list" where
  "firstOccurrences xs = rev (remdups (rev xs))"

definition assignees :: "CPMNode list \<Rightarrow> string list" where
  "assignees ns = firstOccurrences (List.map_filter assignee ns)"

definition nodesOf :: "CPMNode list \<Rightarrow> string \<Rightarrow> CPMNode list" where
  "nodesOf ns a = filter (\<lambda>n. assignee n = Some a) ns"

definition loadOf :: "CPMNode list \<Rightarrow> string \<Rightarrow> Load" where
  "loadOf ns a =
     \<lparr>loadName = (case nodesOf ns a of [] \<Rightarrow> ''Unknown'' | n # _ \<Rightarrow> displayName n),
      loadTasks = int (length (nodesOf ns a)),
      criticalTasks = int (length (filter isCritical (nodesOf ns a))),
      totalDuration = sum_list (map duration (nodesOf ns a))\<rparr>"

text \<open>A node whose assignee id is the empty string, with the id removed instead.\<close>

definition unassignEmpty :: "CPMNode \<Rightarrow> CPMNode" where
  "unassignEmpty n = (if assigneeId n = Some [] then n\<lparr>assigneeId := None\<rparr> else n)"

text \<open>
  For the monotonicity of the forward pass: the dependency edges of a task list, on which
  alone the sort depends, and two node maps with the same keys in the same order where the
  second has, key by key, the smaller earliest finish and the smaller effective duration.
\<close>

definition edges :: "CPMInput list \<Rightarrow> (string \<times> string list) list" where
  "edges tasks = map (\<lambda>t. (ident t, dependencies t)) tasks"

definition dominates ::
  "(int \<Rightarrow> int \<Rightarrow> int) \<Rightarrow> (string, CPMNode) Map \<Rightarrow> (string, CPMNode) Map \<Rightarrow> bool" where
  "dominates cr nm nm' \<longleftrightarrow>
     list_all2 (\<lambda>a b. fst b = fst a \<and> ef (snd b) \<le> ef (snd a) \<and>
                  effectiveDuration cr (snd b) \<le> effectiveDuration cr (snd a)) nm nm'"
section \<open>Inputs on which the engine is evaluated\<close>

text \<open>
  An unassigned task whose display name is its id, and a node as the engine returns it:
  the task with its four times, its float \<open>ls - es\<close> and its criticality.
\<close>

definition mkTask :: "string \<Rightarrow> int \<Rightarrow> string list \<Rightarrow> string \<Rightarrow> int \<Rightarrow> CPMInput" where
  "mkTask i d deps st p =
     \<lparr>ident = i, name = i, duration = d, dependencies = deps, status = st, progress = p,
      assigneeId = None, assigneeName = None\<rparr>"

definition scheduled :: "CPMInput \<Rightarrow> int \<Rightarrow> int \<Rightarrow> int \<Rightarrow> int \<Rightarrow> CPMNode" where
  "scheduled t s f l m =
     CPMInput.extend t (CPMNode.fields s f l m (l - s) (l - s = 0))"

definition nodeById :: "CPMResult \<Rightarrow> string \<Rightarrow> CPMNode option" where
  "nodeById r i = find (\<lambda>n. ident n = i) (nodes r)"

text \<open>The first scenario of the specification.\<close>

definition scenario1 :: "CPMInput list" where
  "scenario1 =
     [mkTask ''A'' 2 [] ''not_started'' 0,
      mkTask ''B'' 3 [''A''] ''not_started'' 0,
      mkTask ''C'' 1 [''A''] ''not_started'' 0]"

text \<open>
  The second scenario: \<open>B\<close> is completed with a stale progress of 40. The expected result
  is written out: \<open>B\<close> finishes at 2, \<open>C\<close> at 3, so \<open>B\<close> may start as late as 3.
\<close>

definition scenario2 :: "CPMInput list" where
  "scenario2 =
     [mkTask ''A'' 2 [] ''not_started'' 0,
      mkTask ''B'' 3 [''A''] ''completed'' 40,
      mkTask ''C'' 1 [''A''] ''not_started'' 0]"

definition scenario2_result :: CPMResult where
  "scenario2_result =
     \<lparr>nodes = [scheduled (mkTask ''A'' 2 [] ''not_started'' 0) 0 2 0 2,
               scheduled (mkTask ''B'' 3 [''A''] ''completed'' 40) 2 2 3 3,
               scheduled (mkTask ''C'' 1 [''A''] ''not_started'' 0) 2 3 2 3],
      criticalPath = [''A'', ''C''],
      projectDuration = Num 3\<rparr>"

text \<open>
  Two chains \<open>R1 \<rightarrow> D\<close> and \<open>R2 \<rightarrow> C\<close> of equal length, with \<open>C\<close> before \<open>D\<close> in the
  input. The queue is seeded with \<open>R1, R2\<close>; \<open>R1\<close> releases \<open>D\<close> before \<open>R2\<close>
  releases \<open>C\<close>.
\<close>

definition tieBreak :: "CPMInput list" where
  "tieBreak =
     [mkTask ''R1'' 1 [] ''not_started'' 0,
      mkTask ''C'' 2 [''R2''] ''not_started'' 0,
      mkTask ''R2'' 1 [] ''not_started'' 0,
      mkTask ''D'' 2 [''R1''] ''not_started'' 0]"

definition tieBreak_result :: CPMResult where
  "tieBreak_result =
     \<lparr>nodes = [scheduled (mkTask ''R1'' 1 [] ''not_started'' 0) 0 1 0 1,
               scheduled (mkTask ''R2'' 1 [] ''not_started'' 0) 0 1 0 1,
               scheduled (mkTask ''D'' 2 [''R1''] ''not_started'' 0) 1 3 1 3,
               scheduled (mkTask ''C'' 2 [''R2''] ''not_started'' 0) 1 3 1 3],
      criticalPath = [''R1'', ''R2'', ''D'', ''C''],
      projectDuration = Num 3\<rparr>"

text \<open>
  The critical path in the specification's words: the ids of the critical nodes, ascending
  by \<open>ES\<close>, ties broken by the original input order (a stable sort of the input's ids).
\<close>

definition specCriticalPath :: "CPMInput list \<Rightarrow> CPMResult \<Rightarrow> string list" where
  "specCriticalPath tasks r =
     sort_key (\<lambda>i. case nodeById r i of None \<Rightarrow> 0 | Some n \<Rightarrow> es n)
       (filter (\<lambda>i. case nodeById r i of None \<Rightarrow> False | Some n \<Rightarrow> isCritical n)
          (map ident tasks))"

text \<open>Every task on a cycle; a dependency on an id that is no task; a cycle beside a chain.\<close>

definition cycleOnly :: "CPMInput list" where
  "cycleOnly =
     [mkTask ''A'' 2 [''B''] ''not_started'' 0,
      mkTask ''B'' 3 [''A''] ''not_started'' 0]"

definition dangling :: "CPMInput list" where
  "dangling =
     [mkTask ''A'' 2 [] ''not_started'' 0,
      mkTask ''B'' 3 [''A'', ''Z''] ''not_started'' 0]"

definition danglingRemoved :: "CPMInput list" where
  "danglingRemoved =
     [mkTask ''A'' 2 [] ''not_started'' 0,
      mkTask ''B'' 3 [''A''] ''not_started'' 0]"

definition cycleAndThree :: "CPMInput list" where
  "cycleAndThree =
     [mkTask ''A'' 2 [''B''] ''not_started'' 0,
      mkTask ''T1'' 4 [] ''not_started'' 0,
      mkTask ''B'' 3 [''A''] ''not_started'' 0,
      mkTask ''T3'' 1 [''T1'', ''T2''] ''not_started'' 0,
      mkTask ''T2'' 5 [''T1''] ''in_progress'' 50]"





text \<open>
  Inputs outside the data model: two tasks with the id \<open>A\<close> (the second one replaces the
  first in the task and predecessor maps, while the successor edge of the first stays);
  two tasks with the id \<open>B\<close> on which the sort still ends; a progress above 100.
\<close>

definition duplicateIds :: "CPMInput list" where
  "duplicateIds =
     [mkTask ''A'' 1 [''B''] ''not_started'' 0,
      mkTask ''A'' 1 [] ''not_started'' 0,
      mkTask ''B'' 1 [''A''] ''not_started'' 0]"

definition duplicateIdsEnding :: "CPMInput list" where
  "duplicateIdsEnding =
     [mkTask ''A'' 2 [] ''not_started'' 0,
      mkTask ''B'' 3 [''A''] ''not_started'' 0,
      mkTask ''B'' 1 [] ''not_started'' 0]"

definition outOfRange :: "CPMInput list" where
  "outOfRange = [mkTask ''A'' 10 [] ''in_progress'' 150]"

text \<open>
  A task of 10 days at 70 percent, where the doubles of the engine do not give the exact
  ceiling; and the effective duration in the specification's words, with the ceiling of
  the exact product.
\<close>

definition roundingCase :: "CPMInput list" where
  "roundingCase = [mkTask ''A'' 10 [] ''in_progress'' 70]"

definition specEffectiveDuration :: "'a CPMInput_scheme \<Rightarrow> int" where
  "specEffectiveDuration node =
     (if status node = ''completed'' then 0
      else \<lceil>(of_int (duration node) :: rat) * (1 - of_int (progress node) / 100)\<rceil>)"
section \<open>Lemmas\<close>

subsection \<open>The maps that calculateCPM builds, for distinct ids\<close>

lemma update_fresh: "k \<notin> fst ` set m \<Longrightarrow> AList.update k v m = m @ [(k, v)]"
  by (induction m) auto

lemma fold_update_fresh:
  "distinct (map k ts) \<Longrightarrow> k ` set ts \<inter> fst ` set m = {} \<Longrightarrow>
   fold (\<lambda>t. AList.update (k t) (f t)) ts m = m @ map (\<lambda>t. (k t, f t)) ts"
proof (induction ts arbitrary: m)
  case Nil
  then show ?case by simp
next
  case (Cons t ts)
  have fresh: "k t \<notin> fst ` set m" using Cons.prems(2) by auto
  have "k ` set ts \<inter> fst ` set (m @ [(k t, f t)]) = {}"
    using Cons.prems by auto
  with Cons.IH [of "m @ [(k t, f t)]"] Cons.prems(1) fresh
  show ?case by (simp add: update_fresh)
qed

lemma buildTaskMap_distinct:
  "distinct (map ident tasks) \<Longrightarrow> buildTaskMap tasks = map (\<lambda>t. (ident t, t)) tasks"
  unfolding buildTaskMap_def using fold_update_fresh [of ident tasks "[]" "\<lambda>t. t"] by simp

lemma buildPredecessors_distinct:
  "distinct (map ident tasks) \<Longrightarrow>
   buildPredecessors tasks = map (\<lambda>t. (ident t, dependencies t)) tasks"
  unfolding buildPredecessors_def
  using fold_update_fresh [of ident tasks "[]" dependencies] by simp

lemma initSuccessors_distinct:
  "distinct (map ident tasks) \<Longrightarrow> initSuccessors tasks = map (\<lambda>t. (ident t, [])) tasks"
  unfolding initSuccessors_def
  using fold_update_fresh [of ident tasks "[]" "\<lambda>t. []"] by simp

lemma map_of_keyed:
  "distinct (map k ts) \<Longrightarrow> t \<in> set ts \<Longrightarrow> map_of (map (\<lambda>t. (k t, f t)) ts) (k t) = Some (f t)"
  by (induction ts) (auto simp: rev_image_eqI)

lemma map_of_keyed_None:
  "i \<notin> k ` set ts \<Longrightarrow> map_of (map (\<lambda>t. (k t, f t)) ts) i = None"
  by (induction ts) auto

lemma map_of_addSuccessor:
  "map_of (addSuccessor tid d m) p =
     map_option (\<lambda>l. l @ (if p = d then [tid] else [])) (map_of m p)"
  by (cases "map_of m d"; cases "map_of m p")
     (auto simp: addSuccessor_def update_conv' split: option.splits)

lemma map_of_fold_addSuccessor:
  "map_of (fold (addSuccessor tid) ds m) p =
     map_option (\<lambda>l. l @ replicate (count_list ds p) tid) (map_of m p)"
proof (induction ds arbitrary: m)
  case Nil
  then show ?case by (simp add: option.map_ident)
next
  case (Cons d ds)
  show ?case
    by (cases "map_of m p")
       (simp_all add: Cons.IH map_of_addSuccessor replicate_append_same)
qed

lemma map_of_fold_tasks_addSuccessor:
  "map_of (fold (\<lambda>t m. fold (addSuccessor (ident t)) (dependencies t) m) ts m) p =
     map_option (\<lambda>l. l @ successorsOf ts p) (map_of m p)"
proof (induction ts arbitrary: m)
  case Nil
  then show ?case by (simp add: successorsOf_def option.map_ident)
next
  case (Cons t ts)
  show ?case
    by (cases "map_of m p")
       (simp_all add: Cons.IH map_of_fold_addSuccessor successorsOf_def)
qed

lemma getOrEmpty_buildSuccessors:
  assumes "distinct (map ident tasks)"
  shows "getOrEmpty p (buildSuccessors tasks) =
           (if p \<in> ident ` set tasks then successorsOf tasks p else [])"
proof (cases "p \<in> ident ` set tasks")
  case True
  then obtain t where "t \<in> set tasks" "p = ident t" by auto
  then have "map_of (initSuccessors tasks) p = Some []"
    using map_of_keyed [OF assms, of t "\<lambda>t. []"] by (simp add: initSuccessors_distinct [OF assms])
  with True show ?thesis
    by (simp add: getOrEmpty_def buildSuccessors_def map_of_fold_tasks_addSuccessor)
next
  case False
  then have "map_of (initSuccessors tasks) p = None"
    by (simp add: initSuccessors_distinct [OF assms] map_of_keyed_None)
  with False show ?thesis
    by (simp add: getOrEmpty_def buildSuccessors_def map_of_fold_tasks_addSuccessor)
qed

lemma count_list_replicate: "count_list (replicate n x) y = (if x = y then n else 0)"
  by (induction n) auto

lemma count_successorsOf_notin:
  "s \<notin> ident ` set ts \<Longrightarrow> count_list (successorsOf ts p) s = 0"
  by (induction ts) (auto simp: successorsOf_def count_list_replicate)

lemma count_successorsOf:
  "distinct (map ident ts) \<Longrightarrow> t \<in> set ts \<Longrightarrow>
   count_list (successorsOf ts p) (ident t) = count_list (dependencies t) p"
proof (induction ts)
  case Nil
  then show ?case by simp
next
  case (Cons u ts)
  show ?case
  proof (cases "t = u")
    case True
    with Cons.prems have "ident u \<notin> ident ` set ts" by auto
    then have "count_list (successorsOf ts p) (ident u) = 0" by (rule count_successorsOf_notin)
    with True show ?thesis
      using count_successorsOf_notin by (simp add: successorsOf_def count_list_replicate)
  next
    case False
    with Cons.prems have "t \<in> set ts" "ident u \<noteq> ident t" by auto
    with Cons show ?thesis by (simp add: successorsOf_def count_list_replicate)
  qed
qed

subsection \<open>The sort: the inner loop, the invariant, termination\<close>

text \<open>
  Along the successor list of the task just placed, a successor's in-degree is at least the
  number of its occurrences still to come, so the \<open>|| 1\<close> default is never taken and a
  task is queued once, at the moment its last dependency is placed.
\<close>

lemma relax_fold:
  assumes "\<forall>s \<in> set L. \<exists>d. map_of inDeg s = Some d \<and> int (count_list L s) \<le> d"
    and "fold relax L (inDeg, q) = (inDeg', q')"
  shows "map fst inDeg' = map fst inDeg \<and>
         (\<forall>s. map_of inDeg' s = map_option (\<lambda>d. d - int (count_list L s)) (map_of inDeg s)) \<and>
         (\<exists>new. q' = q @ new \<and> distinct new \<and>
                 set new = {s \<in> set L. map_of inDeg' s = Some 0})"
  using assms
proof (induction L arbitrary: inDeg q)
  case Nil
  then show ?case by (auto simp: option.map_ident)
next
  case (Cons s L)
  from Cons.prems(1) obtain d where d: "map_of inDeg s = Some d" "int (count_list (s # L) s) \<le> d"
    by auto
  then have d1: "1 \<le> d" "int (count_list L s) \<le> d - 1" by auto
  define inDeg1 where "inDeg1 = AList.update s (d - 1) inDeg"
  define q1 where "q1 = (if d - 1 = 0 then q @ [s] else q)"
  have step: "relax s (inDeg, q) = (inDeg1, q1)"
    using d d1 by (auto simp: relax_def inDeg1_def q1_def)
  have pre: "\<forall>x \<in> set L. \<exists>e. map_of inDeg1 x = Some e \<and> int (count_list L x) \<le> e"
  proof
    fix x assume x: "x \<in> set L"
    show "\<exists>e. map_of inDeg1 x = Some e \<and> int (count_list L x) \<le> e"
    proof (cases "x = s")
      case True
      then show ?thesis using d1 by (simp add: inDeg1_def update_conv')
    next
      case False
      with Cons.prems(1) x show ?thesis by (auto simp: inDeg1_def update_conv')
    qed
  qed
  from Cons.prems(2) step have run: "fold relax L (inDeg1, q1) = (inDeg', q')" by simp
  from Cons.IH [OF pre run] obtain new where
    keys: "map fst inDeg' = map fst inDeg1" and
    vals: "\<And>x. map_of inDeg' x = map_option (\<lambda>e. e - int (count_list L x)) (map_of inDeg1 x)" and
    new: "q' = q1 @ new" "distinct new" "set new = {x \<in> set L. map_of inDeg' x = Some 0}"
    by blast
  have k: "map fst inDeg' = map fst inDeg"
  proof -
    have "s \<in> fst ` set inDeg" using d(1) by (metis domI dom_map_of_conv_image_fst)
    then show ?thesis using keys by (simp add: inDeg1_def update_keys)
  qed
  have v: "\<forall>x. map_of inDeg' x = map_option (\<lambda>e. e - int (count_list (s # L) x)) (map_of inDeg x)"
  proof
    fix x
    show "map_of inDeg' x = map_option (\<lambda>e. e - int (count_list (s # L) x)) (map_of inDeg x)"
      using d(1) by (cases "x = s"; cases "map_of inDeg x") (auto simp: vals inDeg1_def update_conv')
  qed
  have vs: "map_of inDeg' s = Some (d - 1 - int (count_list L s))"
    by (simp add: vals inDeg1_def update_conv')
  have q: "\<exists>new'. q' = q @ new' \<and> distinct new' \<and>
                  set new' = {x \<in> set (s # L). map_of inDeg' x = Some 0}"
  proof (cases "d - 1 = 0")
    case True
    then have "count_list L s = 0" using d1 by simp
    then have notin: "s \<notin> set L" by (simp add: count_list_0_iff)
    then have "s \<notin> set new" using new(3) by simp
    moreover have "map_of inDeg' s = Some 0" using vs True \<open>count_list L s = 0\<close> by simp
    ultimately have "q' = q @ (s # new) \<and> distinct (s # new) \<and>
       set (s # new) = {x \<in> set (s # L). map_of inDeg' x = Some 0}"
      using new True by (auto simp: q1_def)
    then show ?thesis by blast
  next
    case False
    have "map_of inDeg' s = Some 0 \<Longrightarrow> s \<in> set L"
    proof -
      assume "map_of inDeg' s = Some 0"
      with vs have "int (count_list L s) = d - 1" by simp
      with False have "count_list L s \<noteq> 0" by auto
      then show "s \<in> set L" by (simp add: count_list_0_iff)
    qed
    then have "q' = q @ new \<and> distinct new \<and>
       set new = {x \<in> set (s # L). map_of inDeg' x = Some 0}"
      using new False by (auto simp: q1_def)
    then show ?thesis by blast
  qed
  from k v q show ?case by blast
qed

lemma filter_notin_insert_length:
  "length (filter (\<lambda>d. d \<notin> insert p A) xs) + count_list xs p * (if p \<in> A then 0 else 1)
     = length (filter (\<lambda>d. d \<notin> A) xs)"
  by (induction xs) auto

lemma count_le_filter_notin:
  "p \<notin> A \<Longrightarrow> count_list xs p \<le> length (filter (\<lambda>d. d \<notin> A) xs)"
  by (induction xs) auto

lemma kahnInv_step:
  assumes inv: "kahnInv V D inDeg (p # rest) srt"
    and G: "\<forall>p \<in> set V. \<forall>s. count_list (getOrEmpty p S) s = (if s \<in> set V then count_list (D s) p else 0)"
    and run: "fold relax (getOrEmpty p S) (inDeg, rest) = (inDeg', queue')"
  shows "kahnInv V D inDeg' queue' (srt @ [p])"
proof -
  let ?L = "getOrEmpty p S"
  from inv have keys: "map fst inDeg = V"
    and dist: "distinct (srt @ p # rest)"
    and sub: "set (srt @ p # rest) \<subseteq> set V"
    and deg: "\<And>s. s \<in> set V \<Longrightarrow> map_of inDeg s = Some (int (length (filter (\<lambda>d. d \<notin> set srt) (D s))))"
    and mem: "\<And>s. s \<in> set V \<Longrightarrow> s \<in> set (srt @ p # rest) \<longleftrightarrow> set (D s) \<subseteq> set srt"
    and topo: "\<And>xs s ys. srt = xs @ s # ys \<Longrightarrow> set (D s) \<subseteq> set xs"
    unfolding kahnInv_def by blast+
  have pV: "p \<in> set V" and pfresh: "p \<notin> set srt" using sub dist by auto
  have cnt: "\<And>s. count_list ?L s = (if s \<in> set V then count_list (D s) p else 0)"
    using G pV by blast
  have LV: "\<And>s. s \<in> set ?L \<Longrightarrow> s \<in> set V \<and> p \<in> set (D s)"
  proof -
    fix s assume "s \<in> set ?L"
    then have "count_list ?L s \<noteq> 0" by (simp add: count_list_0_iff)
    with cnt [of s] show "s \<in> set V \<and> p \<in> set (D s)"
      by (cases "s \<in> set V") (auto simp: count_list_0_iff)
  qed
  have pre: "\<forall>s \<in> set ?L. \<exists>d. map_of inDeg s = Some d \<and> int (count_list ?L s) \<le> d"
  proof
    fix s assume s: "s \<in> set ?L"
    with LV have sV: "s \<in> set V" by blast
    have "count_list (D s) p \<le> length (filter (\<lambda>d. d \<notin> set srt) (D s))"
      using pfresh by (rule count_le_filter_notin)
    with deg [OF sV] cnt [of s] sV
    show "\<exists>d. map_of inDeg s = Some d \<and> int (count_list ?L s) \<le> d" by simp
  qed
  from relax_fold [OF pre run] obtain new where
    keys': "map fst inDeg' = map fst inDeg" and
    vals: "\<And>s. map_of inDeg' s = map_option (\<lambda>d. d - int (count_list ?L s)) (map_of inDeg s)" and
    new: "queue' = rest @ new" "distinct new" "set new = {s \<in> set ?L. map_of inDeg' s = Some 0}"
    by blast
  have deg': "\<And>s. s \<in> set V \<Longrightarrow>
      map_of inDeg' s = Some (int (length (filter (\<lambda>d. d \<notin> set (srt @ [p])) (D s))))"
  proof -
    fix s assume sV: "s \<in> set V"
    have "length (filter (\<lambda>d. d \<notin> insert p (set srt)) (D s)) + count_list (D s) p
            = length (filter (\<lambda>d. d \<notin> set srt) (D s))"
      using filter_notin_insert_length [of p "set srt" "D s"] pfresh by simp
    then show "map_of inDeg' s = Some (int (length (filter (\<lambda>d. d \<notin> set (srt @ [p])) (D s))))"
      using vals [of s] deg [OF sV] cnt [of s] sV by simp
  qed
  have zero: "\<And>s. s \<in> set V \<Longrightarrow> map_of inDeg' s = Some 0 \<longleftrightarrow> set (D s) \<subseteq> set (srt @ [p])"
  proof -
    fix s assume sV: "s \<in> set V"
    have "length (filter (\<lambda>d. d \<notin> set (srt @ [p])) (D s)) = 0 \<longleftrightarrow> set (D s) \<subseteq> set (srt @ [p])"
      by (auto simp: filter_empty_conv)
    with deg' [OF sV] show "map_of inDeg' s = Some 0 \<longleftrightarrow> set (D s) \<subseteq> set (srt @ [p])"
      by simp
  qed
  have newV: "set new \<subseteq> set V" using new(3) LV by auto
  have new_fresh: "set new \<inter> set (srt @ p # rest) = {}"
  proof -
    have "\<And>s. s \<in> set new \<Longrightarrow> s \<notin> set (srt @ p # rest)"
    proof -
      fix s assume "s \<in> set new"
      with new(3) LV have sV: "s \<in> set V" and pD: "p \<in> set (D s)" by auto
      with pfresh have "\<not> set (D s) \<subseteq> set srt" by auto
      with mem [OF sV] show "s \<notin> set (srt @ p # rest)" by simp
    qed
    then show ?thesis by auto
  qed
  have c1: "map fst inDeg' = V" using keys keys' by simp
  have c2: "distinct ((srt @ [p]) @ queue')"
    using dist new(1,2) new_fresh by auto
  have c3: "set ((srt @ [p]) @ queue') \<subseteq> set V"
    using sub new(1) newV by auto
  have c5: "\<forall>s \<in> set V. s \<in> set ((srt @ [p]) @ queue') \<longleftrightarrow> set (D s) \<subseteq> set (srt @ [p])"
  proof
    fix s assume sV: "s \<in> set V"
    show "s \<in> set ((srt @ [p]) @ queue') \<longleftrightarrow> set (D s) \<subseteq> set (srt @ [p])"
    proof
      assume "s \<in> set ((srt @ [p]) @ queue')"
      then consider "s \<in> set (srt @ p # rest)" | "s \<in> set new" using new(1) by auto
      then show "set (D s) \<subseteq> set (srt @ [p])"
      proof cases
        case 1
        with mem [OF sV] show ?thesis by auto
      next
        case 2
        with new(3) zero [OF sV] show ?thesis by simp
      qed
    next
      assume all: "set (D s) \<subseteq> set (srt @ [p])"
      show "s \<in> set ((srt @ [p]) @ queue')"
      proof (cases "set (D s) \<subseteq> set srt")
        case True
        with mem [OF sV] new(1) show ?thesis by auto
      next
        case False
        with all have "p \<in> set (D s)" by auto
        then have "count_list ?L s \<noteq> 0" using cnt [of s] sV by (simp add: count_list_0_iff)
        then have "s \<in> set ?L" by (simp add: count_list_0_iff)
        with zero [OF sV] all new(3) have "s \<in> set new" by simp
        with new(1) show ?thesis by simp
      qed
    qed
  qed
  have c6: "\<forall>xs s ys. srt @ [p] = xs @ s # ys \<longrightarrow> set (D s) \<subseteq> set xs"
  proof (intro allI impI)
    fix xs s ys assume eq: "srt @ [p] = xs @ s # ys"
    show "set (D s) \<subseteq> set xs"
    proof (cases ys rule: rev_cases)
      case Nil
      with eq have "xs = srt" "s = p" by auto
      with mem [OF pV] show ?thesis by simp
    next
      case (snoc ys' y)
      with eq have "srt = xs @ s # ys'" by auto
      then show ?thesis by (rule topo)
    qed
  qed
  show ?thesis
    unfolding kahnInv_def using c1 c2 c3 deg' c5 c6 by blast
qed

lemma kahnLoop_total:
  assumes G: "\<forall>p \<in> set V. \<forall>s. count_list (getOrEmpty p S) s = (if s \<in> set V then count_list (D s) p else 0)"
  shows "kahnInv V D inDeg queue srt \<Longrightarrow>
         \<exists>res inDeg'. kahnLoop S inDeg queue srt = Some res \<and> kahnInv V D inDeg' [] res"
proof (induction "length V - length srt" arbitrary: inDeg queue srt rule: less_induct)
  case less
  show ?case
  proof (cases queue)
    case Nil
    with less.prems show ?thesis by (subst kahnLoop.simps) auto
  next
    case (Cons p rest)
    obtain inDeg1 queue1 where run: "fold relax (getOrEmpty p S) (inDeg, rest) = (inDeg1, queue1)"
      by (cases "fold relax (getOrEmpty p S) (inDeg, rest)") auto
    from less.prems Cons have inv: "kahnInv V D inDeg (p # rest) srt" by simp
    have inv1: "kahnInv V D inDeg1 queue1 (srt @ [p])"
      by (rule kahnInv_step [OF inv G run])
    from inv have "distinct (srt @ [p])" "set (srt @ [p]) \<subseteq> set V"
      unfolding kahnInv_def by auto
    then have "length (srt @ [p]) \<le> length V"
      by (metis List.finite_set card_length card_mono distinct_card le_trans)
    then have "length V - length (srt @ [p]) < length V - length srt" by simp
    from less.hyps [OF this inv1] obtain res inDeg' where
      "kahnLoop S inDeg1 queue1 (srt @ [p]) = Some res" "kahnInv V D inDeg' [] res" by blast
    then show ?thesis using Cons run by (subst kahnLoop.simps) auto
  qed
qed

lemma getOrEmpty_predecessors:
  "distinct (map ident tasks) \<Longrightarrow> t \<in> set tasks \<Longrightarrow>
   getOrEmpty (ident t) (buildPredecessors tasks) = dependencies t"
  by (simp add: getOrEmpty_def buildPredecessors_distinct map_of_keyed)

lemma initInDegree_distinct:
  assumes "distinct (map ident tasks)"
  shows "initInDegree tasks (buildPredecessors tasks) =
           map (\<lambda>t. (ident t, int (length (dependencies t)))) tasks"
proof -
  have "initInDegree tasks (buildPredecessors tasks) =
          map (\<lambda>t. (ident t, int (length (getOrEmpty (ident t) (buildPredecessors tasks))))) tasks"
    unfolding initInDegree_def
    using fold_update_fresh [OF assms, of "[]"] by simp
  also have "\<dots> = map (\<lambda>t. (ident t, int (length (dependencies t)))) tasks"
    using getOrEmpty_predecessors [OF assms] by simp
  finally show ?thesis .
qed

lemma seedQueue_keyed:
  "seedQueue (map (\<lambda>t. (ident t, int (length (dependencies t)))) ts) =
     map ident (filter (\<lambda>t. dependencies t = []) ts)"
  by (induction ts) (auto simp: seedQueue_def)

lemma graph_of_tasks:
  assumes "distinct (map ident tasks)"
  shows "\<forall>p \<in> set (map ident tasks). \<forall>s.
           count_list (getOrEmpty p (buildSuccessors tasks)) s =
             (if s \<in> set (map ident tasks)
              then count_list (getOrEmpty s (buildPredecessors tasks)) p else 0)"
proof (intro ballI allI)
  fix p s assume p: "p \<in> set (map ident tasks)"
  then have L: "getOrEmpty p (buildSuccessors tasks) = successorsOf tasks p"
    by (simp add: getOrEmpty_buildSuccessors [OF assms])
  show "count_list (getOrEmpty p (buildSuccessors tasks)) s =
          (if s \<in> set (map ident tasks)
           then count_list (getOrEmpty s (buildPredecessors tasks)) p else 0)"
  proof (cases "s \<in> ident ` set tasks")
    case True
    then obtain t where t: "t \<in> set tasks" "s = ident t" by auto
    with True show ?thesis
      by (simp add: L count_successorsOf [OF assms] getOrEmpty_predecessors [OF assms])
  next
    case False
    then show ?thesis by (simp add: L count_successorsOf_notin)
  qed
qed

lemma kahnInv_initial:
  assumes d: "distinct (map ident tasks)"
  shows "kahnInv (map ident tasks) (\<lambda>s. getOrEmpty s (buildPredecessors tasks))
           (initInDegree tasks (buildPredecessors tasks))
           (seedQueue (initInDegree tasks (buildPredecessors tasks))) []"
proof -
  let ?q = "map ident (filter (\<lambda>t. dependencies t = []) tasks)"
  have q: "seedQueue (initInDegree tasks (buildPredecessors tasks)) = ?q"
    by (simp add: initInDegree_distinct [OF d] seedQueue_keyed)
  have k: "map fst (initInDegree tasks (buildPredecessors tasks)) = map ident tasks"
    by (simp add: initInDegree_distinct [OF d] comp_def)
  have dq: "distinct ?q" using d by (simp add: distinct_map_filter)
  have deg: "\<forall>s \<in> set (map ident tasks).
      map_of (initInDegree tasks (buildPredecessors tasks)) s =
        Some (int (length (filter (\<lambda>d. d \<notin> set []) (getOrEmpty s (buildPredecessors tasks)))))"
  proof
    fix s assume "s \<in> set (map ident tasks)"
    then obtain t where t: "t \<in> set tasks" "s = ident t" by auto
    show "map_of (initInDegree tasks (buildPredecessors tasks)) s =
        Some (int (length (filter (\<lambda>d. d \<notin> set []) (getOrEmpty s (buildPredecessors tasks)))))"
      using map_of_keyed [OF d t(1), of "\<lambda>t. int (length (dependencies t))"] t
      by (simp add: initInDegree_distinct [OF d] getOrEmpty_predecessors [OF d])
  qed
  have mem: "\<forall>s \<in> set (map ident tasks).
      s \<in> set ([] @ ?q) \<longleftrightarrow> set (getOrEmpty s (buildPredecessors tasks)) \<subseteq> set []"
  proof
    fix s assume "s \<in> set (map ident tasks)"
    then obtain t where t: "t \<in> set tasks" "s = ident t" by auto
    have "ident t \<in> set ?q \<longleftrightarrow> dependencies t = []"
    proof
      assume "ident t \<in> set ?q"
      then obtain u where u: "u \<in> set tasks" "dependencies u = []" "ident u = ident t" by auto
      with d t(1) have "u = t" by (meson distinct_map inj_onD)
      with u show "dependencies t = []" by simp
    next
      assume "dependencies t = []"
      with t(1) show "ident t \<in> set ?q" by auto
    qed
    with t show "s \<in> set ([] @ ?q) \<longleftrightarrow> set (getOrEmpty s (buildPredecessors tasks)) \<subseteq> set []"
      by (simp add: getOrEmpty_predecessors [OF d])
  qed
  show ?thesis
    unfolding kahnInv_def q using k dq deg mem by auto
qed

lemma topologicalSort_total:
  assumes d: "distinct (map ident tasks)"
  shows "\<exists>srt. topologicalSort tasks (buildPredecessors tasks) (buildSuccessors tasks) = Some srt
               \<and> topoOrder tasks srt"
proof -
  let ?V = "map ident tasks" and ?D = "\<lambda>s. getOrEmpty s (buildPredecessors tasks)"
  from kahnLoop_total [OF graph_of_tasks [OF d] kahnInv_initial [OF d]]
  obtain srt inDeg' where
    run: "kahnLoop (buildSuccessors tasks) (initInDegree tasks (buildPredecessors tasks))
            (seedQueue (initInDegree tasks (buildPredecessors tasks))) [] = Some srt"
    and inv: "kahnInv ?V ?D inDeg' [] srt" by blast
  from inv have "distinct srt" "set srt \<subseteq> set ?V"
    and mem: "\<And>s. s \<in> set ?V \<Longrightarrow> s \<in> set srt \<longleftrightarrow> set (?D s) \<subseteq> set srt"
    and topo: "\<And>xs s ys. srt = xs @ s # ys \<Longrightarrow> set (?D s) \<subseteq> set xs"
    unfolding kahnInv_def by auto
  have m: "\<forall>t \<in> set tasks. ident t \<in> set srt \<longleftrightarrow> set (dependencies t) \<subseteq> set srt"
    using mem getOrEmpty_predecessors [OF d] by auto
  have tp: "\<forall>xs ys. \<forall>t \<in> set tasks. srt = xs @ ident t # ys \<longrightarrow> set (dependencies t) \<subseteq> set xs"
  proof (intro allI ballI impI)
    fix xs ys t assume "t \<in> set tasks" "srt = xs @ ident t # ys"
    with topo [of xs "ident t" ys] getOrEmpty_predecessors [OF d]
    show "set (dependencies t) \<subseteq> set xs" by simp
  qed
  have "topoOrder tasks srt"
    unfolding topoOrder_def using \<open>distinct srt\<close> \<open>set srt \<subseteq> set ?V\<close> m tp by simp
  with run show ?thesis by (auto simp: topologicalSort_def)
qed

subsection \<open>Nodes and the loops over them\<close>

lemma truncate_newNode: "CPMInput.truncate (newNode t) = t"
  by (simp add: newNode_def CPMInput.truncate_def CPMInput.extend_def)

lemma newNode_fields:
  "es (newNode t) = 0" "ef (newNode t) = 0" "ls (newNode t) = 0" "lf (newNode t) = 0"
  "ident (newNode t) = ident t"
  by (simp_all add: newNode_def CPMInput.extend_def CPMNode.fields_def)

lemma truncate_fields:
  "ident (CPMInput.truncate n) = ident n"
  "dependencies (CPMInput.truncate n) = dependencies n"
  "status (CPMInput.truncate n) = status n"
  "duration (CPMInput.truncate n) = duration n"
  "progress (CPMInput.truncate n) = progress n"
  "assigneeId (CPMInput.truncate n) = assigneeId n"
  "assigneeName (CPMInput.truncate n) = assigneeName n"
  "name (CPMInput.truncate n) = name n"
  by (simp_all add: CPMInput.truncate_def)

lemma truncate_update:
  "CPMInput.truncate (n\<lparr>es := a\<rparr>) = CPMInput.truncate n"
  "CPMInput.truncate (n\<lparr>ef := a\<rparr>) = CPMInput.truncate n"
  "CPMInput.truncate (n\<lparr>ls := a\<rparr>) = CPMInput.truncate n"
  "CPMInput.truncate (n\<lparr>lf := a\<rparr>) = CPMInput.truncate n"
  "CPMInput.truncate (n\<lparr>float := a\<rparr>) = CPMInput.truncate n"
  "CPMInput.truncate (n\<lparr>isCritical := b\<rparr>) = CPMInput.truncate n"
  by (simp_all add: CPMInput.truncate_def)

lemma effectiveDuration_update:
  "effectiveDuration cr (n\<lparr>es := a\<rparr>) = effectiveDuration cr n"
  "effectiveDuration cr (n\<lparr>ef := a\<rparr>) = effectiveDuration cr n"
  "effectiveDuration cr (n\<lparr>ls := a\<rparr>) = effectiveDuration cr n"
  "effectiveDuration cr (n\<lparr>lf := a\<rparr>) = effectiveDuration cr n"
  "effectiveDuration cr (n\<lparr>float := a\<rparr>) = effectiveDuration cr n"
  "effectiveDuration cr (n\<lparr>isCritical := b\<rparr>) = effectiveDuration cr n"
  by (simp_all add: effectiveDuration_def)

lemma forEach_rule:
  assumes init: "P [] s0"
    and step: "\<And>dn x rest s. xs = dn @ x # rest \<Longrightarrow> P dn s \<Longrightarrow>
                 \<exists>s'. f x s = Inr s' \<and> P (dn @ [x]) s'"
  shows "\<exists>s'. forEach f xs s0 = Inr s' \<and> P xs s'"
proof -
  have "\<And>dn s. xs = dn @ rest \<Longrightarrow> P dn s \<Longrightarrow> \<exists>s'. forEach f rest s = Inr s' \<and> P xs s'"
    for rest
  proof (induction rest)
    case Nil
    then show ?case by simp
  next
    case (Cons x rest)
    from step [OF Cons.prems] obtain s1 where s1: "f x s = Inr s1" "P (dn @ [x]) s1" by blast
    from Cons.prems(1) have "xs = (dn @ [x]) @ rest" by simp
    from Cons.IH [OF this s1(2)] s1(1) show ?case by simp
  qed
  from this [of "[]" xs s0] init show ?thesis by simp
qed

lemma map_of_keys_Some:
  "i \<in> set (map fst m) \<Longrightarrow> \<exists>v. map_of m i = Some v"
  by (induction m) auto

lemma topoOrder_before:
  assumes "topoOrder tasks srt" "srt = front @ x # rest" "t \<in> set tasks" "ident t \<in> set front"
  shows "set (dependencies t) \<subseteq> set front"
proof -
  from assms(4) obtain as bs where f: "front = as @ ident t # bs" by (meson split_list)
  with assms(2) have "srt = as @ ident t # (bs @ x # rest)" by simp
  with assms(1,3) have "set (dependencies t) \<subseteq> set as" unfolding topoOrder_def by blast
  with f show ?thesis by auto
qed

lemma topoOrder_here:
  assumes "topoOrder tasks srt" "srt = front @ ident t # rest" "t \<in> set tasks"
  shows "set (dependencies t) \<subseteq> set front"
  using assms unfolding topoOrder_def by blast

lemma task_by_ident:
  "distinct (map ident tasks) \<Longrightarrow> t \<in> set tasks \<Longrightarrow> u \<in> set tasks \<Longrightarrow> ident t = ident u \<Longrightarrow> t = u"
  by (meson distinct_map inj_onD)

subsection \<open>The forward pass\<close>

text \<open>
  When a task is visited all its dependencies have been visited, and no later step writes
  to them: the earliest start of a node is at least the earliest finish of each dependency.
\<close>

lemma initNodes_ok:
  assumes d: "distinct (map ident tasks)" and s: "distinct srt" "set srt \<subseteq> ident ` set tasks"
  shows "\<exists>nm. initNodes (buildTaskMap tasks) srt = Inr nm \<and> nodesFor tasks srt nm \<and>
              (\<forall>i n. Map_get i nm = Some n \<longrightarrow> ef n = 0)"
  unfolding initNodes_def
proof (rule forEach_rule [where P = "\<lambda>dn nm. nodesFor tasks dn nm \<and>
              (\<forall>i n. Map_get i nm = Some n \<longrightarrow> ef n = 0)"])
  show "nodesFor tasks [] [] \<and> (\<forall>i n. Map_get i [] = Some n \<longrightarrow> ef n = 0)"
    by (simp add: nodesFor_def)
next
  fix dn x rest and nm :: "(string, CPMNode) Map"
  assume split: "srt = dn @ x # rest"
    and inv: "nodesFor tasks dn nm \<and> (\<forall>i n. Map_get i nm = Some n \<longrightarrow> ef n = 0)"
  from split s obtain t where t: "t \<in> set tasks" "ident t = x" by auto
  then have get: "Map_get x (buildTaskMap tasks) = Some t"
    using map_of_keyed [OF d t(1), of "\<lambda>t. t"] by (simp add: buildTaskMap_distinct [OF d])
  from split s(1) have fresh: "x \<notin> set dn" by auto
  from inv have keys: "map fst nm = dn" by (simp add: nodesFor_def)
  have k': "map fst (Map_set x (newNode t) nm) = dn @ [x]"
    using keys fresh by (simp add: update_keys)
  have "nodesFor tasks (dn @ [x]) (Map_set x (newNode t) nm)"
    unfolding nodesFor_def using inv k' t
    by (auto simp: nodesFor_def update_conv' newNode_fields truncate_newNode)
  moreover have "\<forall>i n. Map_get i (Map_set x (newNode t) nm) = Some n \<longrightarrow> ef n = 0"
    using inv by (auto simp: update_conv' newNode_fields)
  ultimately show "\<exists>s'. (case Map_get x (buildTaskMap tasks) of
                 None \<Rightarrow> Inl UndefinedValue
               | Some task \<Rightarrow> Inr (Map_set x (newNode task) nm)) = Inr s' \<and>
            (nodesFor tasks (dn @ [x]) s' \<and> (\<forall>i n. Map_get i s' = Some n \<longrightarrow> ef n = 0))"
    using get by simp
qed

lemma efOr0_update:
  "efOr0 (Map_set x n nm) p = (if p = x then ef n else efOr0 nm p)"
  by (simp add: efOr0_def update_conv')

lemma forward_ok:
  assumes d: "distinct (map ident tasks)" and topo: "topoOrder tasks srt"
    and nm0: "nodesFor tasks srt nm0"
  shows "\<exists>nm. forEach (forwardStep cr (buildPredecessors tasks)) srt nm0 = Inr nm \<and>
              nodesFor tasks srt nm \<and> forwardDone cr nm srt"
proof (rule forEach_rule [where P = "\<lambda>dn nm. nodesFor tasks srt nm \<and> forwardDone cr nm dn"])
  show "nodesFor tasks srt nm0 \<and> forwardDone cr nm0 []"
    using nm0 by (simp add: forwardDone_def)
next
  fix dn x rest and nm :: "(string, CPMNode) Map"
  assume split: "srt = dn @ x # rest"
    and inv: "nodesFor tasks srt nm \<and> forwardDone cr nm dn"
  from topo have ds: "distinct srt" by (simp add: topoOrder_def)
  from split ds have fresh: "x \<notin> set dn" by auto
  from inv have keys: "map fst nm = srt"
    and wf: "\<And>i n. Map_get i nm = Some n \<Longrightarrow> ident n = i \<and> CPMInput.truncate n \<in> set tasks"
    by (auto simp: nodesFor_def)
  from keys split have "x \<in> set (map fst nm)" by simp
  then obtain node where node: "Map_get x nm = Some node" using map_of_keys_Some by fastforce
  define t where "t = CPMInput.truncate node"
  from wf [OF node] have t: "t \<in> set tasks" "ident t = x" "dependencies t = dependencies node"
    by (simp_all add: t_def truncate_fields)
  have preds: "getOrEmpty x (buildPredecessors tasks) = dependencies node"
    using getOrEmpty_predecessors [OF d t(1)] t by simp
  define E where "E = (if dependencies node = [] then 0
                       else Max (set (map (efOr0 nm) (dependencies node))))"
  define node2 where "node2 = node\<lparr>es := E, ef := E + effectiveDuration cr node\<rparr>"
  have stepeq: "forwardStep cr (buildPredecessors tasks) x nm = Inr (Map_set x node2 nm)"
    by (simp add: forwardStep_def node preds Let_def E_def node2_def effectiveDuration_update)
  have depsx: "set (dependencies node) \<subseteq> set dn"
    using topoOrder_here [OF topo _ t(1)] split t by simp
  have k': "map fst (Map_set x node2 nm) = srt"
    using keys split by (simp add: update_keys)
  have wf': "nodesFor tasks srt (Map_set x node2 nm)"
    unfolding nodesFor_def
  proof (intro conjI allI impI)
    show "map fst (Map_set x node2 nm) = srt" by (rule k')
  next
    fix i n assume "Map_get i (Map_set x node2 nm) = Some n"
    then consider "i = x" "n = node2" | "i \<noteq> x" "Map_get i nm = Some n"
      by (auto simp: update_conv' split: if_splits)
    then show "ident n = i" 
    proof cases
      case 1 then show ?thesis using wf [OF node] by (simp add: node2_def)
    next
      case 2 then show ?thesis using wf by simp
    qed
  next
    fix i n assume "Map_get i (Map_set x node2 nm) = Some n"
    then consider "i = x" "n = node2" | "i \<noteq> x" "Map_get i nm = Some n"
      by (auto simp: update_conv' split: if_splits)
    then show "CPMInput.truncate n \<in> set tasks"
    proof cases
      case 1 then show ?thesis using wf [OF node] by (simp add: node2_def truncate_update)
    next
      case 2 then show ?thesis using wf by simp
    qed
  qed
  have fd: "forwardDone cr (Map_set x node2 nm) (dn @ [x])"
    unfolding forwardDone_def
  proof (intro ballI allI impI)
    fix i n assume i: "i \<in> set (dn @ [x])" and g: "Map_get i (Map_set x node2 nm) = Some n"
    show "ef n = es n + effectiveDuration cr n \<and>
          (\<forall>p \<in> set (dependencies n). efOr0 (Map_set x node2 nm) p \<le> es n)"
    proof (cases "i = x")
      case True
      with g have n: "n = node2" by (simp add: update_conv')
      have a: "ef n = es n + effectiveDuration cr n"
        by (simp add: n node2_def effectiveDuration_update)
      have b: "\<forall>p \<in> set (dependencies n). efOr0 (Map_set x node2 nm) p \<le> es n"
      proof
        fix p assume p: "p \<in> set (dependencies n)"
        then have pd: "p \<in> set (dependencies node)" by (simp add: n node2_def)
        with depsx fresh have "p \<noteq> x" by auto
        moreover have "efOr0 nm p \<le> E"
          using pd by (auto simp: E_def)
        ultimately show "efOr0 (Map_set x node2 nm) p \<le> es n"
          by (simp add: efOr0_update n node2_def)
      qed
      from a b show ?thesis ..
    next
      case False
      with i g have idone: "i \<in> set dn" and gn: "Map_get i nm = Some n"
        by (auto simp: update_conv')
      from inv idone gn have old: "ef n = es n + effectiveDuration cr n"
        "\<forall>p \<in> set (dependencies n). efOr0 nm p \<le> es n"
        unfolding forwardDone_def by blast+
      from wf [OF gn] have tn: "CPMInput.truncate n \<in> set tasks" "ident (CPMInput.truncate n) = i"
        by (simp_all add: truncate_fields)
      have "set (dependencies (CPMInput.truncate n)) \<subseteq> set dn"
        using topoOrder_before [OF topo split tn(1)] tn(2) idone by simp
      then have "set (dependencies n) \<subseteq> set dn" by (simp add: truncate_fields)
      with fresh have "\<forall>p \<in> set (dependencies n). p \<noteq> x" by auto
      with old show ?thesis by (simp add: efOr0_update)
    qed
  qed
  from stepeq wf' fd
  show "\<exists>s'. forwardStep cr (buildPredecessors tasks) x nm = Inr s' \<and>
             (nodesFor tasks srt s' \<and> forwardDone cr s' (dn @ [x]))"
    by simp
qed

subsection \<open>The backward pass\<close>

text \<open>
  In reverse order the scheduled successors of a task are visited before it. The latest
  start of each is at least its earliest start, hence at least the earliest finish of the
  task; an unscheduled successor counts as the project duration. So \<open>EF \<le> LF\<close>.
\<close>

lemma set_successorsOf:
  "s \<in> set (successorsOf ts p) \<Longrightarrow> \<exists>u \<in> set ts. ident u = s \<and> p \<in> set (dependencies u)"
  by (induction ts) (auto simp: successorsOf_def count_list_0_iff split: if_splits)

lemma lsOr_update:
  "lsOr pd (Map_set x n nm) s = (if s = x then ls n else lsOr pd nm s)"
  by (simp add: lsOr_def update_conv')

lemma backward_ok:
  assumes d: "distinct (map ident tasks)" and topo: "topoOrder tasks srt"
    and nm1: "nodesFor tasks srt nm1" "forwardDone cr nm1 srt"
    and pd: "\<forall>i n. Map_get i nm1 = Some n \<longrightarrow> ef n \<le> pd"
  shows "\<exists>nm. forEach (backwardStep cr (buildSuccessors tasks) pd) (rev srt) nm1 = Inr nm \<and>
              nodesFor tasks srt nm \<and> forwardDone cr nm srt \<and> backwardDone cr nm (rev srt)"
proof -
  let ?P = "\<lambda>dn nm. nodesFor tasks srt nm \<and> forwardDone cr nm srt \<and>
              (\<forall>i n. Map_get i nm = Some n \<longrightarrow> ef n \<le> pd) \<and> backwardDone cr nm dn"
  have "\<exists>nm. forEach (backwardStep cr (buildSuccessors tasks) pd) (rev srt) nm1 = Inr nm \<and>
             ?P (rev srt) nm"
  proof (rule forEach_rule [where P = ?P])
    show "?P [] nm1" using nm1 pd by (simp add: backwardDone_def)
  next
    fix dn x rest and nm :: "(string, CPMNode) Map"
    assume split: "rev srt = dn @ x # rest" and inv: "?P dn nm"
    from topo have ds: "distinct srt" by (simp add: topoOrder_def)
    from split have srt: "srt = rev rest @ x # rev dn"
      by (metis rev_append rev.simps(2) rev_rev_ident append_Cons append_Nil append_assoc)
    with ds have fresh: "x \<notin> set dn" "x \<notin> set rest" "set dn \<inter> set rest = {}" by auto
    from inv have keys: "map fst nm = srt"
      and wf: "\<And>i n. Map_get i nm = Some n \<Longrightarrow> ident n = i \<and> CPMInput.truncate n \<in> set tasks"
      and fwd: "forwardDone cr nm srt"
      and le: "\<And>i n. Map_get i nm = Some n \<Longrightarrow> ef n \<le> pd"
      and bwd: "backwardDone cr nm dn"
      by (auto simp: nodesFor_def)
    from keys srt have "x \<in> set (map fst nm)" by simp
    then obtain node where node: "Map_get x nm = Some node" using map_of_keys_Some by fastforce
    define t where "t = CPMInput.truncate node"
    from wf [OF node] have t: "t \<in> set tasks" "ident t = x" "dependencies t = dependencies node"
      by (simp_all add: t_def truncate_fields)
    have succs: "getOrEmpty x (buildSuccessors tasks) = successorsOf tasks x"
      using t by (auto simp: getOrEmpty_buildSuccessors [OF d])
    define L where "L = (if successorsOf tasks x = [] then pd
                         else Min (set (map (lsOr pd nm) (successorsOf tasks x))))"
    define node2 where "node2 = node\<lparr>lf := L, ls := L - effectiveDuration cr node\<rparr>"
    have stepeq: "backwardStep cr (buildSuccessors tasks) pd x nm = Inr (Map_set x node2 nm)"
      by (simp add: backwardStep_def node succs Let_def L_def node2_def effectiveDuration_update)
    have xdeps: "set (dependencies node) \<subseteq> set rest"
    proof -
      have "srt = rev rest @ ident t # rev dn" using srt t by simp
      from topoOrder_here [OF topo this t(1)] t show ?thesis by simp
    qed
    have each: "ef node \<le> lsOr pd nm s" if s: "s \<in> set (successorsOf tasks x)" for s
    proof (cases "Map_get s nm")
      case None
      then show ?thesis using le [OF node] by (simp add: lsOr_def)
    next
      case (Some ns)
      from set_successorsOf [OF s] obtain u where
        u: "u \<in> set tasks" "ident u = s" "x \<in> set (dependencies u)" by blast
      from wf [OF Some] have "CPMInput.truncate ns \<in> set tasks" "ident (CPMInput.truncate ns) = s"
        by (simp_all add: truncate_fields)
      with u have "CPMInput.truncate ns = u" using task_by_ident [OF d] by metis
      then have xin: "x \<in> set (dependencies ns)" using u(3) truncate_fields(2) by metis
      have "s \<in> set srt" using Some keys by (metis map_of_eq_None_iff option.distinct(1) set_map)
      moreover have "s \<noteq> x"
      proof
        assume "s = x"
        with u t task_by_ident [OF d] have "u = t" by metis
        with u(3) t(3) xdeps fresh show False by auto
      qed
      moreover have "s \<notin> set rest"
      proof
        assume "s \<in> set rest"
        then have "ident u \<in> set (rev rest)" using u(2) by simp
        from topoOrder_before [OF topo srt u(1) this] u(3) fresh show False by auto
      qed
      ultimately have sdn: "s \<in> set dn" using srt by auto
      with bwd Some have b: "ls ns = lf ns - effectiveDuration cr ns" "ef ns \<le> lf ns"
        unfolding backwardDone_def by blast+
      from fwd Some \<open>s \<in> set srt\<close> have f: "ef ns = es ns + effectiveDuration cr ns"
        "\<forall>p \<in> set (dependencies ns). efOr0 nm p \<le> es ns"
        unfolding forwardDone_def by blast+
      from f(2) xin have "efOr0 nm x \<le> es ns" by blast
      then have "ef node \<le> es ns" by (simp add: efOr0_def node)
      with b f(1) show ?thesis by (simp add: lsOr_def Some)
    qed
    have efL: "ef node \<le> L"
    proof (cases "successorsOf tasks x = []")
      case True
      then show ?thesis using le [OF node] by (simp add: L_def)
    next
      case False
      then show ?thesis using each by (simp add: L_def)
    qed
    have k': "map fst (Map_set x node2 nm) = srt"
      using keys srt by (simp add: update_keys)
    have same: "efOr0 (Map_set x node2 nm) p = efOr0 nm p" for p
      using node by (cases "p = x") (simp_all add: efOr0_def update_conv' node2_def)
    have cases: "(i = x \<and> n = node2) \<or> (i \<noteq> x \<and> Map_get i nm = Some n)"
      if "Map_get i (Map_set x node2 nm) = Some n" for i n
      using that by (auto simp: update_conv' split: if_splits)
    have n2: "ident node2 = x" "CPMInput.truncate node2 = t" "es node2 = es node"
      "ef node2 = ef node" "dependencies node2 = dependencies node"
      "effectiveDuration cr node2 = effectiveDuration cr node"
      "lf node2 = L" "ls node2 = L - effectiveDuration cr node"
      using wf [OF node]
      by (simp_all add: node2_def truncate_update t_def effectiveDuration_update)
    have wf': "nodesFor tasks srt (Map_set x node2 nm)"
      unfolding nodesFor_def using k' cases wf n2 t by metis
    have fwd': "forwardDone cr (Map_set x node2 nm) srt"
      unfolding forwardDone_def
    proof (intro ballI allI impI)
      fix i n assume i: "i \<in> set srt" and g: "Map_get i (Map_set x node2 nm) = Some n"
      from cases [OF g] show "ef n = es n + effectiveDuration cr n \<and>
            (\<forall>p \<in> set (dependencies n). efOr0 (Map_set x node2 nm) p \<le> es n)"
      proof
        assume "i = x \<and> n = node2"
        moreover from fwd node i have "ef node = es node + effectiveDuration cr node"
          "\<forall>p \<in> set (dependencies node). efOr0 nm p \<le> es node"
          unfolding forwardDone_def using srt by auto
        ultimately show ?thesis by (simp add: n2 same)
      next
        assume "i \<noteq> x \<and> Map_get i nm = Some n"
        with fwd i show ?thesis unfolding forwardDone_def by (simp add: same)
      qed
    qed
    have le': "\<forall>i n. Map_get i (Map_set x node2 nm) = Some n \<longrightarrow> ef n \<le> pd"
      using cases le node n2 by metis
    have bwd': "backwardDone cr (Map_set x node2 nm) (dn @ [x])"
      unfolding backwardDone_def
    proof (intro ballI allI impI)
      fix i n assume i: "i \<in> set (dn @ [x])" and g: "Map_get i (Map_set x node2 nm) = Some n"
      from cases [OF g] show "ls n = lf n - effectiveDuration cr n \<and> ef n \<le> lf n"
      proof
        assume "i = x \<and> n = node2"
        then show ?thesis using efL by (simp add: n2)
      next
        assume a: "i \<noteq> x \<and> Map_get i nm = Some n"
        with i have "i \<in> set dn" by simp
        with bwd a show ?thesis unfolding backwardDone_def by blast
      qed
    qed
    from stepeq wf' fwd' le' bwd'
    show "\<exists>s'. backwardStep cr (buildSuccessors tasks) pd x nm = Inr s' \<and> ?P (dn @ [x]) s'"
      by simp
  qed
  then show ?thesis by blast
qed

subsection \<open>Float, critical path and the result\<close>

lemma insort_key_map_cong:
  "\<forall>y \<in> set (x # xs). f (g y) = h y \<Longrightarrow>
   insort_key f (g x) (map g xs) = map g (insort_key h x xs)"
  by (induction xs) auto

lemma sort_key_map_cong:
  "\<forall>y \<in> set xs. f (g y) = h y \<Longrightarrow> sort_key f (map g xs) = map g (sort_key h xs)"
proof (induction xs)
  case Nil
  then show ?case by simp
next
  case (Cons x xs)
  then have "sort_key f (map g xs) = map g (sort_key h xs)" by simp
  moreover have "\<forall>y \<in> set (x # sort_key h xs). f (g y) = h y" using Cons.prems by simp
  ultimately show ?case using insort_key_map_cong [of x "sort_key h xs" f g h] by simp
qed

lemma collectNodes_keys:
  "distinct (map fst m) \<Longrightarrow> set xs \<subseteq> set m \<Longrightarrow> collectNodes m (map fst xs) = Inr (map snd xs)"
  by (induction xs) auto

lemma collectCritical_values:
  "collectCritical nm = map ident (filter isCritical (map snd nm))"
  by (induction nm) (auto simp: collectCritical_def)

lemma map_snd_floatPass: "map snd (floatPass nm) = map markFloat (map snd nm)"
  by (induction nm) (auto simp: floatPass_def)

lemma map_fst_floatPass: "map fst (floatPass nm) = map fst nm"
  by (induction nm) (auto simp: floatPass_def)

lemma markFloat_fields:
  "es (markFloat n) = es n" "ef (markFloat n) = ef n" "ls (markFloat n) = ls n"
  "lf (markFloat n) = lf n" "float (markFloat n) = ls n - es n"
  "isCritical (markFloat n) = (ls n - es n = 0)" "ident (markFloat n) = ident n"
  "CPMInput.truncate (markFloat n) = CPMInput.truncate n"
  "effectiveDuration cr (markFloat n) = effectiveDuration cr n"
  by (simp_all add: markFloat_def CPMInput.truncate_def effectiveDuration_def)

lemma map_ef_update:
  "Map_get x m = Some node \<Longrightarrow> ef node' = ef node \<Longrightarrow>
   map (\<lambda>(k, n). ef n) (Map_set x node' m) = map (\<lambda>(k, n). ef n) m"
  by (induction m) (auto split: if_splits)

lemma schedule_facts:
  assumes d: "distinct (map ident tasks)" and topo: "topoOrder tasks srt"
  shows "\<exists>r. schedule cr (buildTaskMap tasks) (buildPredecessors tasks) (buildSuccessors tasks) srt
                = Inr r \<and>
              map ident (nodes r) = srt \<and>
              (\<forall>n \<in> set (nodes r). CPMInput.truncate n \<in> set tasks \<and> nodeOK cr n) \<and>
              criticalPath r = map ident (sort_key es (filter isCritical (nodes r))) \<and>
              projectDuration r = Math_max (map ef (nodes r))"
proof -
  from topo have ds: "distinct srt" and sub: "set srt \<subseteq> ident ` set tasks"
    by (simp_all add: topoOrder_def)
  from initNodes_ok [OF d ds sub] obtain nm0 where
    nm0: "initNodes (buildTaskMap tasks) srt = Inr nm0" "nodesFor tasks srt nm0" by blast
  from forward_ok [OF d topo nm0(2)] obtain nm1 where
    nm1: "forEach (forwardStep cr (buildPredecessors tasks)) srt nm0 = Inr nm1"
      "nodesFor tasks srt nm1" "forwardDone cr nm1 srt" by blast
  from nm1(2) have k1: "map fst nm1 = srt" by (simp add: nodesFor_def)
  show ?thesis
  proof (cases "nm1 = []")
    case True
    with k1 have "srt = []" by simp
    with nm0 nm1 True show ?thesis by (simp add: schedule_def Math_max_def)
  next
    case False
    define pd where "pd = Max (set (map (\<lambda>(k, n). ef n) nm1))"
    have mm: "Math_max (map (\<lambda>(k, n). ef n) nm1) = Num pd"
      using False by (simp add: Math_max_def pd_def)
    have le: "\<forall>i n. Map_get i nm1 = Some n \<longrightarrow> ef n \<le> pd"
    proof (intro allI impI)
      fix i n assume "Map_get i nm1 = Some n"
      then have "(i, n) \<in> set nm1" by (rule map_of_SomeD)
      then have "ef n \<in> set (map (\<lambda>(k, n). ef n) nm1)" by force
      then show "ef n \<le> pd" unfolding pd_def by (meson List.finite_set Max_ge)
    qed
    from backward_ok [OF d topo nm1(2,3) le] obtain nm2 where
      nm2: "forEach (backwardStep cr (buildSuccessors tasks) pd) (rev srt) nm1 = Inr nm2"
        "nodesFor tasks srt nm2" "forwardDone cr nm2 srt" "backwardDone cr nm2 (rev srt)"
      by blast
    from nm2(2) have k2: "map fst nm2 = srt" by (simp add: nodesFor_def)
    define nm3 where "nm3 = floatPass nm2"
    define ns where "ns = map snd nm3"
    have k3: "map fst nm3 = srt" by (simp add: nm3_def map_fst_floatPass k2)
    have cn: "collectNodes nm3 srt = Inr ns"
      using collectNodes_keys [of nm3 nm3] ds k3 by (simp add: ns_def)
    have ef_same: "map ef ns = map (\<lambda>(k, n). ef n) nm1"
    proof -
      have "forEach (backwardStep cr (buildSuccessors tasks) pd) xs m = Inr m' \<Longrightarrow>
            map (\<lambda>(k, n). ef n) m' = map (\<lambda>(k, n). ef n) m" for xs m m'
      proof (induction xs arbitrary: m)
        case Nil
        then show ?case by simp
      next
        case (Cons x xs)
        from Cons.prems obtain m1 where m1: "backwardStep cr (buildSuccessors tasks) pd x m = Inr m1"
          "forEach (backwardStep cr (buildSuccessors tasks) pd) xs m1 = Inr m'"
          by (auto split: sum.splits)
        from m1(1) obtain node v w where
          "Map_get x m = Some node" "m1 = Map_set x (node\<lparr>lf := v, ls := w\<rparr>) m"
          by (auto simp: backwardStep_def Let_def split: option.splits)
        then have "map (\<lambda>(k, n). ef n) m1 = map (\<lambda>(k, n). ef n) m"
          by (simp add: map_ef_update)
        with Cons.IH [OF m1(2)] show ?case by simp
      qed
      from this [OF nm2(1)] show ?thesis
        by (simp add: ns_def nm3_def map_snd_floatPass comp_def markFloat_fields split_def)
    qed
    have res: "schedule cr (buildTaskMap tasks) (buildPredecessors tasks) (buildSuccessors tasks) srt
                = Inr \<lparr>nodes = ns, criticalPath = sortByES nm3 (collectCritical nm3),
                       projectDuration = Num pd\<rparr>"
      using nm0(1) nm1(1) mm nm2(1) cn by (simp add: schedule_def nm3_def Let_def)
    have ids: "map ident ns = srt"
    proof -
      have "\<forall>(i, n) \<in> set nm2. ident n = i"
        using nm2(2) ds k2 by (auto simp: nodesFor_def)
      then have "map (\<lambda>(i, n). ident n) nm2 = map fst nm2" by (induction nm2) auto
      then show ?thesis
        by (simp add: ns_def nm3_def map_snd_floatPass comp_def markFloat_fields split_def k2)
    qed
    have ok: "\<forall>n \<in> set ns. CPMInput.truncate n \<in> set tasks \<and> nodeOK cr n"
    proof
      fix n assume "n \<in> set ns"
      then obtain i m where im: "(i, m) \<in> set nm2" "n = markFloat m"
        by (auto simp: ns_def nm3_def floatPass_def)
      with ds k2 have g: "Map_get i nm2 = Some m" by simp
      have i: "i \<in> set srt" using im(1) k2 by force
      from nm2(2) g have t: "CPMInput.truncate m \<in> set tasks" by (simp add: nodesFor_def)
      from nm2(3) g i have f: "ef m = es m + effectiveDuration cr m"
        unfolding forwardDone_def by blast
      from nm2(4) g i have b: "ls m = lf m - effectiveDuration cr m" "ef m \<le> lf m"
        unfolding backwardDone_def by auto
      from t f b show "CPMInput.truncate n \<in> set tasks \<and> nodeOK cr n"
        by (simp add: im(2) nodeOK_def markFloat_fields)
    qed
    have key: "\<forall>n \<in> set (filter isCritical ns). esOr0 nm3 (ident n) = es n"
    proof
      fix n assume "n \<in> set (filter isCritical ns)"
      then obtain i where "(i, n) \<in> set nm3" by (auto simp: ns_def)
      moreover from this have "ident n = i"
        using nm2(2) ds k2 by (auto simp: nm3_def floatPass_def nodesFor_def markFloat_fields)
      ultimately have "Map_get (ident n) nm3 = Some n" using ds k3 by simp
      then show "esOr0 nm3 (ident n) = es n" by (simp add: esOr0_def)
    qed
    have cp: "sortByES nm3 (collectCritical nm3) = map ident (sort_key es (filter isCritical ns))"
      unfolding sortByES_def collectCritical_values ns_def [symmetric]
      using sort_key_map_cong [of "filter isCritical ns" "esOr0 nm3" ident es] key by simp
    have "projectDuration \<lparr>nodes = ns, criticalPath = sortByES nm3 (collectCritical nm3),
                       projectDuration = Num pd\<rparr> = Math_max (map ef ns)"
      using mm ef_same by simp
    with res ids ok cp show ?thesis by simp
  qed
qed

lemma calculateCPM_facts:
  assumes d: "distinct (map ident tasks)" and ne: "tasks \<noteq> []"
  shows "\<exists>r srt. calculateCPM cr tasks = Some (Inr r) \<and> topoOrder tasks srt \<and>
              map ident (nodes r) = srt \<and>
              (\<forall>n \<in> set (nodes r). CPMInput.truncate n \<in> set tasks \<and> nodeOK cr n) \<and>
              criticalPath r = map ident (sort_key es (filter isCritical (nodes r))) \<and>
              projectDuration r = Math_max (map ef (nodes r))"
proof -
  from topologicalSort_total [OF d] obtain srt where
    srt: "topologicalSort tasks (buildPredecessors tasks) (buildSuccessors tasks) = Some srt"
      "topoOrder tasks srt" by blast
  from schedule_facts [OF d srt(2), of cr] srt ne show ?thesis
    by (auto simp: calculateCPM_def)
qed
subsection \<open>Evaluation on concrete inputs\<close>

lemmas eval_defs =

  calculateCPM_def mkTask_def scheduled_def
  buildTaskMap_def buildPredecessors_def buildSuccessors_def initSuccessors_def addSuccessor_def
  topologicalSort_def initInDegree_def seedQueue_def getOrEmpty_def relax_def kahnLoop.simps
  schedule_def initNodes_def forwardStep_def backwardStep_def efOr0_def lsOr_def Math_max_def
  effectiveDuration_def exactCeil_def newNode_def CPMInput.extend_def CPMNode.fields_def
  floatPass_def markFloat_def collectCritical_def sortByES_def esOr0_def Let_def

lemma scenario1_distinct: "distinct (map ident scenario1)"
  by (simp add: scenario1_def mkTask_def)

lemma scenario1_ranges:
  "\<forall>t \<in> set scenario1. 0 \<le> duration t \<and> 0 \<le> progress t \<and> progress t \<le> 100"
  by (simp add: scenario1_def mkTask_def)

lemma cycle_not_sorted:
  assumes topo: "topoOrder tasks srt" and a: "a \<in> set tasks" and b: "b \<in> set tasks"
    and ab: "ident b \<in> set (dependencies a)" and ba: "ident a \<in> set (dependencies b)"
  shows "ident a \<notin> set srt"
proof
  assume "ident a \<in> set srt"
  then obtain xs ys where s: "srt = xs @ ident a # ys" by (meson split_list)
  from topoOrder_here [OF topo s a] ab have "ident b \<in> set xs" by auto
  then obtain us vs where x: "xs = us @ ident b # vs" by (meson split_list)
  with s have "srt = us @ ident b # (vs @ ident a # ys)" by simp
  from topoOrder_here [OF topo this b] ba have "ident a \<in> set us" by auto
  with s x have "\<not> distinct srt" by auto
  with topo show False by (simp add: topoOrder_def)
qed

subsection \<open>The rounding\<close>

text \<open>
  What makes \<open>fl\<close> the rounding to the nearest double: the exponent brackets the number,
  the result is a multiple of the unit in the last place at most half a unit away, and
  the sign and every power of two as an upper bound are kept.
\<close>

lemma pow2_pos: "0 < pow2 k"
  by (simp add: pow2_def)

lemma pow2_Suc: "pow2 (k + 1) = 2 * pow2 k"
proof (cases "0 \<le> k")
  case True
  then show ?thesis by (simp add: pow2_def nat_add_distrib)
next
  case False
  then have k: "k < 0" by simp
  show ?thesis
  proof (cases "k = - 1")
    case True
    then show ?thesis by (simp add: pow2_def)
  next
    case False
    with k have "nat (- k) = Suc (nat (- (k + 1)))" by simp
    with k False show ?thesis by (simp add: pow2_def)
  qed
qed

lemma pow2_mono: "j \<le> k \<Longrightarrow> pow2 j \<le> pow2 k"
proof (induction "nat (k - j)" arbitrary: k)
  case 0
  then show ?case by simp
next
  case (Suc n)
  then have "n = nat ((k - 1) - j)" "j \<le> k - 1" by simp_all
  with Suc.hyps(1) have "pow2 j \<le> pow2 (k - 1)" by blast
  also have "\<dots> \<le> pow2 k" using pow2_Suc [of "k - 1"] pow2_pos [of "k - 1"] by simp
  finally show ?case .
qed

lemma binaryExponent_bounds:
  assumes "0 < x"
  shows "pow2 (binaryExponent x) \<le> x \<and> x < pow2 (binaryExponent x + 1)"
proof (cases "1 \<le> x")
  case True
  define n where "n = \<lfloor>x\<rfloor>"
  have n: "0 < n" "of_int n \<le> x" "x < of_int (n + 1)"
    using True floor_correct [of x] by (auto simp: n_def)
  from bitlen_bounds [OF n(1)] have b: "2 ^ nat (bitlen n - 1) \<le> n" "n < 2 ^ nat (bitlen n)"
    by simp_all
  have b1: "1 \<le> bitlen n" using n(1) by (simp add: bitlen_alt_def)
  have e: "binaryExponent x = bitlen n - 1" using True by (simp add: binaryExponent_def n_def)
  have "pow2 (bitlen n - 1) = of_int (2 ^ nat (bitlen n - 1))" using b1 by (simp add: pow2_def)
  also have "\<dots> \<le> of_int n" using b(1) by (simp only: of_int_le_iff)
  finally have lo: "pow2 (bitlen n - 1) \<le> x" using n(2) by linarith
  have "n + 1 \<le> 2 ^ nat (bitlen n)" using b(2) by simp
  then have "of_int (n + 1) \<le> (of_int (2 ^ nat (bitlen n)) :: rat)" by (simp only: of_int_le_iff)
  also have "\<dots> = pow2 (bitlen n)" using b1 by (simp add: pow2_def)
  finally have hi: "x < pow2 (bitlen n)" using n(3) by linarith
  from lo hi e show ?thesis by simp
next
  case False
  with assms have x: "0 < x" "x < 1" by simp_all
  define y where "y = 1 / x"
  have y: "1 < y" using x by (simp add: y_def)
  define m where "m = \<lceil>y\<rceil> - 1"
  have "1 < \<lceil>y\<rceil>" using y by (simp add: less_ceiling_iff)
  then have m: "0 < m" "of_int m < y" "y \<le> of_int (m + 1)"
    using ceiling_correct [of y] by (auto simp: m_def)
  define k where "k = bitlen m"
  from bitlen_bounds [OF m(1)] have b: "2 ^ nat (k - 1) \<le> m" "m < 2 ^ nat k"
    by (simp_all add: k_def)
  have k1: "1 \<le> k" using m(1) by (simp add: k_def bitlen_alt_def)
  have e: "binaryExponent x = - k"
    using False by (simp add: binaryExponent_def k_def m_def y_def)
  have "of_int (m + 1) \<le> (of_int (2 ^ nat k) :: rat)"
    using b(2) by (simp only: of_int_le_iff)
  then have "y \<le> 2 ^ nat k" using m(3) by simp
  then have "1 / 2 ^ nat k \<le> x" using x(1) by (simp add: y_def field_simps)
  then have lo: "pow2 (- k) \<le> x" using k1 by (simp add: pow2_def)
  have "(of_int (2 ^ nat (k - 1)) :: rat) \<le> of_int m" using b(1) by (simp only: of_int_le_iff)
  then have "(2 :: rat) ^ nat (k - 1) \<le> of_int m" by (simp only: of_int_power of_int_numeral)
  then have "2 ^ nat (k - 1) < y" using m(2) by linarith
  then have "x < 1 / 2 ^ nat (k - 1)" using x(1) by (simp add: y_def field_simps)
  moreover have "pow2 (- k + 1) = 1 / 2 ^ nat (k - 1)"
    using k1 by (cases "k = 1") (simp_all add: pow2_def)
  ultimately have hi: "x < pow2 (- k + 1)" by simp
  from lo hi e show ?thesis by simp
qed

lemma roundHalfEven_error: "\<bar>of_int (roundHalfEven q) - q\<bar> \<le> 1 / 2"
proof -
  define f where "f = \<lfloor>q\<rfloor>"
  have f: "of_int f \<le> q" "q < of_int f + 1" using floor_correct [of q] by (simp_all add: f_def)
  consider "q - of_int f < 1 / 2" | "1 / 2 < q - of_int f" | "q - of_int f = 1 / 2" by linarith
  then show ?thesis
  proof cases
    case 1
    then have "roundHalfEven q = f" by (simp add: roundHalfEven_def f_def Let_def)
    with 1 f show ?thesis by simp
  next
    case 2
    then have "roundHalfEven q = f + 1" by (simp add: roundHalfEven_def f_def Let_def)
    with 2 f show ?thesis by simp
  next
    case 3
    then have "roundHalfEven q = f \<or> roundHalfEven q = f + 1"
      by (simp add: roundHalfEven_def f_def Let_def)
    with 3 f show ?thesis by auto
  qed
qed

lemma roundHalfEven_mono_int: "of_int n \<le> q \<Longrightarrow> n \<le> roundHalfEven q"
proof -
  assume "of_int n \<le> q"
  then have "n \<le> \<lfloor>q\<rfloor>" by (simp add: le_floor_iff)
  moreover have "roundHalfEven q = \<lfloor>q\<rfloor> \<or> roundHalfEven q = \<lfloor>q\<rfloor> + 1"
    by (simp add: roundHalfEven_def Let_def)
  ultimately show ?thesis by auto
qed

lemma roundHalfEven_le_int: "q \<le> of_int n \<Longrightarrow> roundHalfEven q \<le> n"
proof -
  assume a: "q \<le> of_int n"
  have "\<lfloor>q\<rfloor> \<le> n" using a by (simp add: floor_le_iff) 
  moreover have "q - of_int \<lfloor>q\<rfloor> \<ge> 1 / 2 \<Longrightarrow> \<lfloor>q\<rfloor> + 1 \<le> n"
  proof -
    assume "q - of_int \<lfloor>q\<rfloor> \<ge> 1 / 2"
    then have "of_int \<lfloor>q\<rfloor> < q" by linarith
    with a have "(of_int \<lfloor>q\<rfloor> :: rat) < of_int n" by linarith
    then show ?thesis by simp
  qed
  ultimately show ?thesis unfolding roundHalfEven_def Let_def by auto
qed

lemma fl_error:
  assumes "x \<noteq> 0"
  shows "\<bar>fl x - x\<bar> \<le> pow2 (binaryExponent \<bar>x\<bar> - 53)"
proof -
  define u where "u = pow2 (binaryExponent \<bar>x\<bar> - 52)"
  have u: "0 < u" by (simp add: u_def pow2_pos)
  have half: "pow2 (binaryExponent \<bar>x\<bar> - 53) = u / 2"
    using pow2_Suc [of "binaryExponent \<bar>x\<bar> - 53"] by (simp add: u_def)
  have "fl x - x = (of_int (roundHalfEven (x / u)) - x / u) * u"
    using assms u by (simp add: fl_def u_def [symmetric] Let_def field_simps)
  then have "\<bar>fl x - x\<bar> = \<bar>of_int (roundHalfEven (x / u)) - x / u\<bar> * u"
    using u by (simp add: abs_mult)
  also have "\<dots> \<le> (1 / 2) * u"
    using roundHalfEven_error [of "x / u"] u by (intro mult_right_mono) simp_all
  finally show ?thesis using half by simp
qed

lemma fl_nonneg: "0 \<le> x \<Longrightarrow> 0 \<le> fl x"
proof (cases "x = 0")
  case True
  then show ?thesis by (simp add: fl_def)
next
  case False
  assume "0 \<le> x"
  define u where "u = pow2 (binaryExponent \<bar>x\<bar> - 52)"
  have u: "0 < u" by (simp add: u_def pow2_pos)
  have "of_int 0 \<le> x / u" using \<open>0 \<le> x\<close> u by simp
  then have "0 \<le> roundHalfEven (x / u)" by (rule roundHalfEven_mono_int)
  then show ?thesis using False u by (simp add: fl_def u_def [symmetric] Let_def)
qed

lemma fl_le_pow2:
  assumes "0 < x" "x \<le> pow2 k"
  shows "fl x \<le> pow2 k"
proof -
  define e where "e = binaryExponent x"
  define u where "u = pow2 (e - 52)"
  have u: "0 < u" by (simp add: u_def pow2_pos)
  have xe: "pow2 e \<le> x" using binaryExponent_bounds [of x] assms(1) by (simp add: e_def)
  have "e \<le> k"
  proof (rule ccontr)
    assume "\<not> e \<le> k"
    then have "k + 1 \<le> e" by simp
    then have "pow2 (k + 1) \<le> pow2 e" by (rule pow2_mono)
    with xe assms(2) have "pow2 (k + 1) \<le> pow2 k" by linarith
    then show False using pow2_Suc [of k] pow2_pos [of k] by simp
  qed
  have scale: "pow2 k / u = of_int (2 ^ nat (k - e + 52))"
  proof -
    have "pow2 (e - 52 + int n) = 2 ^ n * pow2 (e - 52)" for n
    proof (induction n)
      case 0
      then show ?case by simp
    next
      case (Suc n)
      have "pow2 (e - 52 + int (Suc n)) = pow2 ((e - 52 + int n) + 1)" by (simp add: add.assoc)
      also have "\<dots> = 2 * pow2 (e - 52 + int n)" by (rule pow2_Suc)
      finally show ?case using Suc by simp
    qed
    from this [of "nat (k - e + 52)"] \<open>e \<le> k\<close>
    have "pow2 k = 2 ^ nat (k - e + 52) * u" by (simp add: u_def)
    then show ?thesis using u by simp
  qed
  have "x / u \<le> pow2 k / u" using assms(2) u by (simp add: divide_right_mono)
  then have "x / u \<le> of_int (2 ^ nat (k - e + 52))" using scale by simp
  then have "roundHalfEven (x / u) \<le> 2 ^ nat (k - e + 52)" by (rule roundHalfEven_le_int)
  then have "(of_int (roundHalfEven (x / u)) :: rat) \<le> of_int (2 ^ nat (k - e + 52))"
    by (simp only: of_int_le_iff)
  then have "of_int (roundHalfEven (x / u)) * u \<le> (pow2 k / u) * u"
    using u scale by (intro mult_right_mono) simp_all
  then show ?thesis
    using assms(1) u by (simp add: fl_def e_def [symmetric] u_def [symmetric] Let_def)
qed

lemma doubleCeil_nonneg:
  assumes "0 \<le> d" "0 \<le> p" "p \<le> 100"
  shows "0 \<le> doubleCeil d p"
proof -
  define a where "a = fl (of_int p / 100)"
  have "a \<le> 1"
  proof (cases "p = 0")
    case True
    then show ?thesis by (simp add: a_def fl_def)
  next
    case False
    with assms have "0 < (of_int p / 100 :: rat)" "(of_int p / 100 :: rat) \<le> pow2 0"
      by (simp_all add: pow2_def)
    from fl_le_pow2 [OF this] show ?thesis by (simp add: a_def pow2_def)
  qed
  then have "0 \<le> fl (1 - a)" by (intro fl_nonneg) simp
  then have "0 \<le> of_int d * fl (1 - a)" using assms(1) by simp
  then have "0 \<le> fl (of_int d * fl (1 - a))" by (rule fl_nonneg)
  then show ?thesis by (simp add: doubleCeil_def a_def [symmetric])
qed

text \<open>
  Consequences for the two expressions. Away from a total of exactly seven tenths the
  threshold test is the exact comparison, for project durations below \<open>2^49\<close>; at
  seven tenths it goes either way. The rounded-up remaining duration is never negative on
  the data model's ranges, and it is the exact ceiling or one more for durations below
  \<open>2^44\<close>.
\<close>

lemma binaryExponent_less:
  assumes "0 < x" "x < pow2 k"
  shows "binaryExponent x < k"
proof (rule ccontr)
  assume "\<not> binaryExponent x < k"
  then have "pow2 k \<le> pow2 (binaryExponent x)" by (intro pow2_mono) simp
  with binaryExponent_bounds [OF assms(1)] assms(2) show False by linarith
qed

lemma fl_error_below:
  assumes "0 < x" "x < pow2 k"
  shows "\<bar>fl x - x\<bar> \<le> pow2 (k - 54)"
proof -
  from binaryExponent_less [OF assms] have "binaryExponent \<bar>x\<bar> - 53 \<le> k - 54"
    using assms(1) by simp
  then have "pow2 (binaryExponent \<bar>x\<bar> - 53) \<le> pow2 (k - 54)" by (rule pow2_mono)
  with fl_error [of x] assms(1) show ?thesis by simp
qed




lemma fl_unit_interval:
  assumes "0 \<le> t" "t \<le> 1"
  shows "0 \<le> fl t \<and> fl t \<le> 1 \<and> \<bar>fl t - t\<bar> \<le> pow2 (- 53)"
proof (cases "t = 0")
  case True
  then show ?thesis using pow2_pos [of "- 53"] by (simp add: fl_def)
next
  case False
  with assms have pos: "0 < t" by simp
  have "t \<le> pow2 0" "t < pow2 1" using assms(2) by (simp_all add: pow2_def)
  from fl_le_pow2 [OF pos this(1)] fl_error_below [OF pos this(2)] fl_nonneg [OF assms(1)]
  show ?thesis by (simp add: pow2_def)
qed

lemma exactCeil_ceiling: "exactCeil d p = \<lceil>(of_int (d * (100 - p)) :: rat) / of_int 100\<rceil>"
  unfolding ceiling_divide_eq_div by (simp add: exactCeil_def algebra_simps)

lemma doubleCeil_bracket:
  assumes d: "0 \<le> d" "d < 2 ^ 44" and p: "0 \<le> p" "p \<le> 100"
  shows "exactCeil d p \<le> doubleCeil d p \<and> doubleCeil d p \<le> exactCeil d p + 1"
proof -
  define t :: rat where "t = of_int p / 100"
  define a where "a = fl t"
  define b where "b = fl (1 - a)"
  define y where "y = of_int d * b"
  define c where "c = fl y"
  define v :: rat where "v = of_int d * (1 - t)"
  define n where "n = exactCeil d p"
  have t: "0 \<le> t" "t \<le> 1" using p by (simp_all add: t_def)
  define eps where "eps = pow2 (- 53)"
  from fl_unit_interval [OF t] have a: "0 \<le> a" "a \<le> 1" "\<bar>a - t\<bar> \<le> eps"
    by (simp_all add: a_def eps_def)
  have "0 \<le> 1 - a" "1 - a \<le> 1" using a by simp_all
  from fl_unit_interval [OF this] have b: "0 \<le> b" "b \<le> 1" "\<bar>b - (1 - a)\<bar> \<le> eps"
    by (simp_all add: b_def eps_def)
  have "(of_int d :: rat) < of_int (2 ^ 44)" using d(2) by (simp only: of_int_less_iff)
  then have dr: "(0 :: rat) \<le> of_int d" "(of_int d :: rat) < 2 ^ 44"
    using d(1) by simp_all
  have bt: "\<bar>b - (1 - t)\<bar> \<le> 2 * eps" using a(3) b(3) by linarith
  have "y - v = of_int d * (b - (1 - t))" by (simp add: y_def v_def algebra_simps)
  then have "\<bar>y - v\<bar> = of_int d * \<bar>b - (1 - t)\<bar>"
    using dr(1) by (simp add: abs_mult)
  also have "\<dots> \<le> of_int d * (2 * eps)" using bt dr(1) by (rule mult_left_mono)
  also have "\<dots> \<le> 2 ^ 44 * (2 * eps)" using dr(2) by (intro mult_right_mono) (simp_all add: eps_def pow2_def)
  also have "\<dots> = 1 / 256" by (simp add: eps_def pow2_def)
  finally have yv: "\<bar>y - v\<bar> \<le> 1 / 256" .
  have y0: "0 \<le> y" using dr(1) b(1) by (simp add: y_def)
  have ylt: "y < pow2 44"
  proof -
    have "y \<le> of_int d * 1" unfolding y_def using b(2) dr(1) by (rule mult_left_mono)
    with dr(2) show ?thesis by (simp add: pow2_def)
  qed
  have cy: "\<bar>c - y\<bar> \<le> 1 / 1024"
  proof (cases "y = 0")
    case True
    then show ?thesis by (simp add: c_def fl_def)
  next
    case False
    with y0 have "0 < y" by simp
    from fl_error_below [OF this ylt] show ?thesis by (simp add: c_def pow2_def)
  qed
  have cv: "\<bar>c - v\<bar> < 1 / 100" using yv cy by linarith
  have v_eq: "v = of_int (d * (100 - p)) / of_int 100" by (simp add: v_def t_def field_simps)
  have n_eq: "n = \<lceil>v\<rceil>" by (simp add: n_def exactCeil_ceiling v_eq)
  have up: "v \<le> of_int n" by (simp add: n_eq le_of_int_ceiling)
  have "of_int (n - 1) < v" using n_eq ceiling_correct [of v] by simp
  then have "(of_int (100 * (n - 1)) :: rat) < of_int (d * (100 - p))"
    by (simp add: v_eq field_simps)
  then have "100 * (n - 1) < d * (100 - p)" by (simp only: of_int_less_iff)
  then have "100 * (n - 1) + 1 \<le> d * (100 - p)" by simp
  then have "(of_int (100 * (n - 1) + 1) :: rat) \<le> of_int (d * (100 - p))"
    by (simp only: of_int_le_iff)
  then have lo: "of_int n - 99 / 100 \<le> v" by (simp add: v_eq field_simps)
  have "of_int n - 1 < c" using lo cv by linarith
  then have "of_int (n - 1) < c" by simp
  then have "n - 1 < \<lceil>c\<rceil>" by (simp only: less_ceiling_iff)
  then have l: "n \<le> \<lceil>c\<rceil>" by simp
  have "c \<le> of_int n + 1" using up cv by linarith
  then have "c \<le> of_int (n + 1)" by simp
  then have u: "\<lceil>c\<rceil> \<le> n + 1" by (simp only: ceiling_le_iff)
  have "doubleCeil d p = \<lceil>c\<rceil>"
    by (simp add: doubleCeil_def c_def y_def b_def a_def t_def)
  with l u show ?thesis by (simp add: n_def)
qed

lemma doubleCeil_examples:
  "doubleCeil 10 70 = 4 \<and> exactCeil 10 70 = 3 \<and> doubleCeil 25 44 = 15 \<and> exactCeil 25 44 = 14"
  by code_simp

lemma specEffectiveDuration_exactCeil:
  "specEffectiveDuration node =
     (if status node = ''completed'' then 0 else exactCeil (duration node) (progress node))"
proof -
  have "(of_int (duration node) :: rat) * (1 - of_int (progress node) / 100) =
          of_int (duration node * (100 - progress node)) / of_int 100"
    by (simp add: field_simps)
  then have "\<lceil>(of_int (duration node) :: rat) * (1 - of_int (progress node) / 100)\<rceil> =
          exactCeil (duration node) (progress node)"
    by (simp only: exactCeil_ceiling)
  then show ?thesis unfolding specEffectiveDuration_def by simp
qed

lemma doubleCeil_range: "\<forall>d p. 0 \<le> d \<and> 0 \<le> p \<and> p \<le> 100 \<longrightarrow> 0 \<le> doubleCeil d p"
  by (simp add: doubleCeil_nonneg)

lemma doubleCeil_values:
  "doubleCeil 1 0 = 1" "doubleCeil 2 0 = 2" "doubleCeil 3 0 = 3" "doubleCeil 4 0 = 4"
  "doubleCeil 30 0 = 30" "doubleCeil 40 0 = 40" "doubleCeil 5 50 = 3"
  "doubleCeil 10 70 = 4" "doubleCeil 10 150 = - 5"
  by code_simp+

subsection \<open>The resource analysis\<close>

lemma accumulate_unassigned: "assignee n = None \<Longrightarrow> accumulate n m = m"
  by (auto simp: assignee_def accumulate_def split: option.splits if_splits)

lemma accumulate_assigned:
  "assignee n = Some a \<Longrightarrow>
   accumulate n m =
     Map_set a
       (case Map_get a m of
          None \<Rightarrow> \<lparr>loadName = displayName n, loadTasks = 1,
                     criticalTasks = (if isCritical n then 1 else 0),
                     totalDuration = duration n\<rparr>
        | Some l \<Rightarrow> \<lparr>loadName = loadName l, loadTasks = loadTasks l + 1,
                       criticalTasks = criticalTasks l + (if isCritical n then 1 else 0),
                       totalDuration = totalDuration l + duration n\<rparr>) m"
proof (cases "Map_get a m")
  case None
  assume "assignee n = Some a"
  with None show ?thesis
    by (auto simp: assignee_def accumulate_def Let_def split: option.splits if_splits)
next
  case (Some l)
  assume "assignee n = Some a"
  with Some show ?thesis
    by (cases l) (auto simp: assignee_def accumulate_def Let_def split: option.splits if_splits)
qed

lemma firstOccurrences_snoc:
  "firstOccurrences (xs @ [a]) =
     (if a \<in> set xs then firstOccurrences xs else firstOccurrences xs @ [a])"
  by (simp add: firstOccurrences_def)

lemma set_firstOccurrences [simp]: "set (firstOccurrences xs) = set xs"
  by (simp add: firstOccurrences_def)

lemma distinct_firstOccurrences [simp]: "distinct (firstOccurrences xs)"
  by (simp add: firstOccurrences_def)

lemma map_of_tabulate:
  "a \<in> set xs \<Longrightarrow> map_of (map (\<lambda>b. (b, f b)) xs) a = Some (f a)"
  by (induction xs) auto

lemma map_of_tabulate_None:
  "a \<notin> set xs \<Longrightarrow> map_of (map (\<lambda>b. (b, f b)) xs) a = None"
  by (induction xs) auto

lemma update_tabulate:
  "distinct xs \<Longrightarrow> a \<in> set xs \<Longrightarrow> g a = v \<Longrightarrow> \<forall>b \<in> set xs. b \<noteq> a \<longrightarrow> g b = f b \<Longrightarrow>
   AList.update a v (map (\<lambda>b. (b, f b)) xs) = map (\<lambda>b. (b, g b)) xs"
  by (induction xs) auto

lemma nodesOf_snoc:
  "nodesOf (ns @ [n]) b = nodesOf ns b @ (if assignee n = Some b then [n] else [])"
  by (simp add: nodesOf_def)

lemma nodesOf_empty_iff: "nodesOf ns a = [] \<longleftrightarrow> a \<notin> set (List.map_filter assignee ns)"
  by (induction ns) (auto simp: nodesOf_def map_filter_simps split: option.splits)

lemma loadOf_snoc_other:
  "assignee n \<noteq> Some b \<Longrightarrow> loadOf (ns @ [n]) b = loadOf ns b"
  by (simp add: loadOf_def nodesOf_snoc)

lemma loadOf_snoc_first:
  "assignee n = Some a \<Longrightarrow> nodesOf ns a = [] \<Longrightarrow>
   loadOf (ns @ [n]) a =
     \<lparr>loadName = displayName n, loadTasks = 1,
      criticalTasks = (if isCritical n then 1 else 0), totalDuration = duration n\<rparr>"
  by (simp add: loadOf_def nodesOf_snoc)

lemma loadOf_snoc_again:
  "assignee n = Some a \<Longrightarrow> nodesOf ns a \<noteq> [] \<Longrightarrow>
   loadOf (ns @ [n]) a =
     \<lparr>loadName = loadName (loadOf ns a), loadTasks = loadTasks (loadOf ns a) + 1,
      criticalTasks = criticalTasks (loadOf ns a) + (if isCritical n then 1 else 0),
      totalDuration = totalDuration (loadOf ns a) + duration n\<rparr>"
  by (cases "nodesOf ns a") (simp_all add: loadOf_def nodesOf_snoc)

lemma map_filter_snoc:
  "List.map_filter f (xs @ [x]) =
     List.map_filter f xs @ (case f x of None \<Rightarrow> [] | Some y \<Rightarrow> [y])"
  by (induction xs) (auto simp: map_filter_simps split: option.splits)

lemma fold_accumulate:
  "fold accumulate ns [] = map (\<lambda>a. (a, loadOf ns a)) (assignees ns)"
proof (induction ns rule: rev_induct)
  case Nil
  then show ?case by (simp add: assignees_def firstOccurrences_def map_filter_simps)
next
  case (snoc n ns)
  let ?xs = "List.map_filter assignee ns"
  let ?m = "map (\<lambda>a. (a, loadOf ns a)) (assignees ns)"
  have step: "fold accumulate (ns @ [n]) [] = accumulate n ?m" using snoc.IH by simp
  show ?case
  proof (cases "assignee n")
    case None
    then have "assignees (ns @ [n]) = assignees ns"
      by (simp add: assignees_def map_filter_snoc)
    moreover have "\<And>b. loadOf (ns @ [n]) b = loadOf ns b"
      using None by (simp add: loadOf_snoc_other)
    ultimately show ?thesis using step None by (simp add: accumulate_unassigned)
  next
    case (Some a)
    have as: "assignees (ns @ [n]) =
                (if a \<in> set ?xs then assignees ns else assignees ns @ [a])"
      using Some by (simp add: assignees_def map_filter_snoc firstOccurrences_snoc)
    have other: "\<And>b. b \<noteq> a \<Longrightarrow> loadOf (ns @ [n]) b = loadOf ns b"
      using Some by (simp add: loadOf_snoc_other)
    show ?thesis
    proof (cases "a \<in> set ?xs")
      case True
      then have ne: "nodesOf ns a \<noteq> []" by (simp add: nodesOf_empty_iff)
      from True have ain: "a \<in> set (assignees ns)" by (simp add: assignees_def)
      then have get: "Map_get a ?m = Some (loadOf ns a)" by (rule map_of_tabulate)
      have "accumulate n ?m = Map_set a (loadOf (ns @ [n]) a) ?m"
        by (simp add: accumulate_assigned [OF Some] get loadOf_snoc_again [OF Some ne])
      also have "\<dots> = map (\<lambda>b. (b, loadOf (ns @ [n]) b)) (assignees ns)"
        by (rule update_tabulate) (use ain other in \<open>simp_all add: assignees_def\<close>)
      finally show ?thesis using step as True by simp
    next
      case False
      then have e: "nodesOf ns a = []" by (simp add: nodesOf_empty_iff)
      from False have anot: "a \<notin> set (assignees ns)" by (simp add: assignees_def)
      then have get: "Map_get a ?m = None" by (rule map_of_tabulate_None)
      have fresh: "a \<notin> fst ` set ?m" using anot by force
      have same: "map (\<lambda>b. (b, loadOf (ns @ [n]) b)) (assignees ns) = ?m"
      proof -
        have "\<forall>b \<in> set (assignees ns). loadOf (ns @ [n]) b = loadOf ns b"
          using other anot by metis
        then show ?thesis by simp
      qed
      have "accumulate n ?m = ?m @ [(a, loadOf (ns @ [n]) a)]"
        by (simp add: accumulate_assigned [OF Some] get loadOf_snoc_first [OF Some e]
            update_fresh [OF fresh])
      then show ?thesis using step as False same by simp
    qed
  qed
qed

lemma fold_accumulate_skip:
  "fold accumulate (filter (\<lambda>n. assigneeId n \<noteq> Some []) ns) m = fold accumulate ns m"
proof (induction ns arbitrary: m)
  case Nil
  then show ?case by simp
next
  case (Cons n ns)
  have "assigneeId n = Some [] \<Longrightarrow> accumulate n m = m"
    by (simp add: accumulate_def)
  with Cons show ?case by auto
qed

lemma accumulate_unassignEmpty: "accumulate (unassignEmpty n) m = accumulate n m"
  by (cases "assigneeId n")
     (auto simp: accumulate_def unassignEmpty_def displayName_def Let_def)

lemma fold_accumulate_unassignEmpty:
  "fold accumulate (map unassignEmpty ns) m = fold accumulate ns m"
  by (induction ns arbitrary: m) (simp_all add: accumulate_unassignEmpty)

lemma developerId_toEntry: "developerId (toEntry (a, l)) = a"
  by (simp add: toEntry_def Load.extend_def DeveloperLoad.fields_def)

lemma assignees_nonempty: "[] \<notin> set (assignees ns)"
  by (induction ns)
     (auto simp: assignees_def assignee_def map_filter_simps split: option.splits if_splits)



subsection \<open>Monotonicity of the forward pass\<close>

text \<open>
  The sort reads ids and dependencies only, and the forward pass is monotone in the
  effective durations: smaller durations give, key by key, smaller earliest finishes.
\<close>

lemma buildPredecessors_edges:
  "buildPredecessors tasks = fold (\<lambda>e m. Map_set (fst e) (snd e) m) (edges tasks) []"
  by (simp add: buildPredecessors_def edges_def fold_map comp_def)

lemma initSuccessors_edges:
  "initSuccessors tasks = fold (\<lambda>e m. Map_set (fst e) [] m) (edges tasks) []"
  by (simp add: initSuccessors_def edges_def fold_map comp_def)

lemma buildSuccessors_edges:
  "buildSuccessors tasks =
     fold (\<lambda>e m. fold (addSuccessor (fst e)) (snd e) m) (edges tasks)
       (fold (\<lambda>e m. Map_set (fst e) [] m) (edges tasks) [])"
  by (simp add: buildSuccessors_def initSuccessors_edges) (simp add: edges_def fold_map comp_def)

lemma initInDegree_edges:
  "initInDegree tasks P =
     fold (\<lambda>e m. Map_set (fst e) (int (length (getOrEmpty (fst e) P))) m) (edges tasks) []"
  by (simp add: initInDegree_def edges_def fold_map comp_def)

lemma topologicalSort_edges:
  assumes "edges tasks' = edges tasks"
  shows "topologicalSort tasks' (buildPredecessors tasks') (buildSuccessors tasks') =
         topologicalSort tasks (buildPredecessors tasks) (buildSuccessors tasks)"
  by (simp add: topologicalSort_def buildPredecessors_edges buildSuccessors_edges
      initInDegree_edges assms)

lemma map_update_same:
  "f y = f (xs ! k) \<Longrightarrow> map f (xs[k := y]) = map f xs"
  by (induction xs arbitrary: k) (auto split: nat.splits)

lemma complete_fields:
  "ident (complete t) = ident t" "dependencies (complete t) = dependencies t"
  "status (complete t) = ''completed''" "effectiveDuration cr (complete t) = 0"
  by (simp_all add: complete_def effectiveDuration_def)

lemma edges_complete: "edges (tasks[k := complete (tasks ! k)]) = edges tasks"
  unfolding edges_def by (rule map_update_same) (simp add: complete_fields)

lemma idents_complete: "map ident (tasks[k := complete (tasks ! k)]) = map ident tasks"
  by (rule map_update_same) (simp add: complete_fields)

lemma dominates_lookup:
  "dominates cr nm nm' \<Longrightarrow>
     (Map_get i nm = None \<and> Map_get i nm' = None) \<or>
     (\<exists>n n'. Map_get i nm = Some n \<and> Map_get i nm' = Some n' \<and> ef n' \<le> ef n \<and>
        effectiveDuration cr n' \<le> effectiveDuration cr n)"
  unfolding dominates_def
  by (induction nm nm' rule: list_all2_induct) auto

lemma dominates_update:
  "dominates cr nm nm' \<Longrightarrow> ef v' \<le> ef v \<Longrightarrow>
   effectiveDuration cr v' \<le> effectiveDuration cr v \<Longrightarrow>
   dominates cr (Map_set x v nm) (Map_set x v' nm')"
  unfolding dominates_def
  by (induction nm nm' rule: list_all2_induct) auto

lemma dominates_efOr0: "dominates cr nm nm' \<Longrightarrow> efOr0 nm' p \<le> efOr0 nm p"
  using dominates_lookup [of cr nm nm' p] by (auto simp: efOr0_def)

lemma Max_map_mono:
  assumes "ps \<noteq> []" "\<forall>p \<in> set ps. (f' p :: int) \<le> f p"
  shows "Max (set (map f' ps)) \<le> Max (set (map f ps))"
proof -
  have "\<forall>a \<in> set (map f' ps). a \<le> Max (set (map f ps))"
  proof
    fix a assume "a \<in> set (map f' ps)"
    then obtain p where p: "p \<in> set ps" "a = f' p" by auto
    then have "f p \<le> Max (set (map f ps))" by simp
    moreover from p assms(2) have "f' p \<le> f p" by blast
    ultimately show "a \<le> Max (set (map f ps))" using p(2) by linarith
  qed
  then show ?thesis using assms(1) by simp
qed

lemma forwardStep_mono:
  assumes dom: "dominates cr nm nm'"
    and s: "forwardStep cr P x nm = Inr m" and s': "forwardStep cr P x nm' = Inr m'"
  shows "dominates cr m m'"
proof -
  from s obtain node where node: "Map_get x nm = Some node"
    by (auto simp: forwardStep_def split: option.splits)
  from s' obtain node' where node': "Map_get x nm' = Some node'"
    by (auto simp: forwardStep_def split: option.splits)
  from dominates_lookup [OF dom, of x] node node'
  have rel: "effectiveDuration cr node' \<le> effectiveDuration cr node" by auto
  let ?ps = "getOrEmpty x P"
  define E where "E = (if ?ps = [] then 0 else Max (set (map (efOr0 nm) ?ps)))"
  define E' where "E' = (if ?ps = [] then 0 else Max (set (map (efOr0 nm') ?ps)))"
  have le: "E' \<le> E"
    unfolding E_def E'_def using Max_map_mono [of ?ps "efOr0 nm'" "efOr0 nm"] dominates_efOr0 [OF dom]
    by simp
  have m: "m = Map_set x (node\<lparr>es := E, ef := E + effectiveDuration cr node\<rparr>) nm"
    using s by (simp add: forwardStep_def node Let_def E_def effectiveDuration_update)
  have m': "m' = Map_set x (node'\<lparr>es := E', ef := E' + effectiveDuration cr node'\<rparr>) nm'"
    using s' by (simp add: forwardStep_def node' Let_def E'_def effectiveDuration_update)
  show ?thesis
    unfolding m m' using le rel
    by (intro dominates_update [OF dom]) (simp_all add: effectiveDuration_update)
qed

lemma forward_mono:
  "dominates cr nm nm' \<Longrightarrow> forEach (forwardStep cr P) xs nm = Inr m \<Longrightarrow>
   forEach (forwardStep cr P) xs nm' = Inr m' \<Longrightarrow> dominates cr m m'"
proof (induction xs arbitrary: nm nm')
  case Nil
  then show ?case by simp
next
  case (Cons x xs)
  from Cons.prems(2) obtain m1 where m1: "forwardStep cr P x nm = Inr m1"
    "forEach (forwardStep cr P) xs m1 = Inr m" by (auto split: sum.splits)
  from Cons.prems(3) obtain m1' where m1': "forwardStep cr P x nm' = Inr m1'"
    "forEach (forwardStep cr P) xs m1' = Inr m'" by (auto split: sum.splits)
  from forwardStep_mono [OF Cons.prems(1) m1(1) m1'(1)] have "dominates cr m1 m1'" .
  from Cons.IH [OF this m1(2) m1'(2)] show ?case .
qed

lemma effectiveDuration_newNode: "effectiveDuration cr (newNode t) = effectiveDuration cr t"
  by (simp add: effectiveDuration_def newNode_def CPMInput.extend_def)

lemma initNodes_mono_gen:
  assumes "\<forall>i \<in> set xs. \<exists>t t'. Map_get i tm = Some t \<and> Map_get i tm' = Some t' \<and>
              effectiveDuration cr t' \<le> effectiveDuration cr t"
    and "dominates cr acc acc'"
    and "forEach (\<lambda>i nm. case Map_get i tm of None \<Rightarrow> Inl UndefinedValue
                           | Some t \<Rightarrow> Inr (Map_set i (newNode t) nm)) xs acc = Inr m"
    and "forEach (\<lambda>i nm. case Map_get i tm' of None \<Rightarrow> Inl UndefinedValue
                           | Some t \<Rightarrow> Inr (Map_set i (newNode t) nm)) xs acc' = Inr m'"
  shows "dominates cr m m'"
  using assms
proof (induction xs arbitrary: acc acc')
  case Nil
  then show ?case by simp
next
  case (Cons x xs)
  from Cons.prems(1) obtain t t' where t: "Map_get x tm = Some t" "Map_get x tm' = Some t'"
    "effectiveDuration cr t' \<le> effectiveDuration cr t" by auto
  have d1: "dominates cr (Map_set x (newNode t) acc) (Map_set x (newNode t') acc')"
    using t(3) by (intro dominates_update [OF Cons.prems(2)])
      (simp_all add: newNode_fields effectiveDuration_newNode)
  from Cons.prems(1) have rest: "\<forall>i \<in> set xs. \<exists>t t'. Map_get i tm = Some t \<and>
      Map_get i tm' = Some t' \<and> effectiveDuration cr t' \<le> effectiveDuration cr t" by simp
  from Cons.IH [OF rest d1] Cons.prems(3,4) t show ?case by simp
qed

lemma dominates_Math_max:
  assumes "dominates cr nm nm'"
  shows "jsnum_le (Math_max (map (\<lambda>(k, n). ef n) nm')) (Math_max (map (\<lambda>(k, n). ef n) nm))"
proof (cases "nm = []")
  case True
  with assms have "nm' = []" by (simp add: dominates_def)
  with True show ?thesis by (simp add: Math_max_def)
next
  case False
  with assms have ne': "nm' \<noteq> []" by (auto simp: dominates_def)
  have "\<forall>a \<in> set (map (\<lambda>(k, n). ef n) nm'). a \<le> Max (set (map (\<lambda>(k, n). ef n) nm))"
  proof
    fix a assume "a \<in> set (map (\<lambda>(k, n). ef n) nm')"
    then obtain j where j: "j < length nm'" "a = ef (snd (nm' ! j))"
      by (auto simp: in_set_conv_nth split_def)
    from assms j(1) have "ef (snd (nm' ! j)) \<le> ef (snd (nm ! j))" "j < length nm"
      by (auto simp: dominates_def list_all2_conv_all_nth)
    moreover have "ef (snd (nm ! j)) \<in> set (map (\<lambda>(k, n). ef n) nm)"
      using \<open>j < length nm\<close> by (force simp: split_def)
    then have "ef (snd (nm ! j)) \<le> Max (set (map (\<lambda>(k, n). ef n) nm))" by simp
    ultimately show "a \<le> Max (set (map (\<lambda>(k, n). ef n) nm))" using j(2) by linarith
  qed
  then have "Max (set (map (\<lambda>(k, n). ef n) nm')) \<le> Max (set (map (\<lambda>(k, n). ef n) nm))"
    using ne' by simp
  with False ne' show ?thesis by (simp add: Math_max_def)
qed

lemma schedule_projectDuration:
  "schedule cr tm P S srt = Inr r \<Longrightarrow>
   \<exists>nm0 nm1. initNodes tm srt = Inr nm0 \<and> forEach (forwardStep cr P) srt nm0 = Inr nm1 \<and>
             projectDuration r = Math_max (map (\<lambda>(k, n). ef n) nm1)"
  by (auto simp: schedule_def Let_def split: sum.splits jsnum.splits)

lemma exactCeil_nonneg: "0 \<le> d \<Longrightarrow> p \<le> 100 \<Longrightarrow> 0 \<le> exactCeil d p"
proof -
  assume "0 \<le> d" "p \<le> 100"
  then have "d * (p - 100) \<le> 0" by (simp add: mult_nonneg_nonpos)
  then have "(d * (p - 100)) div 100 \<le> 0" by (simp add: div_nonpos_pos_le0)
  then show ?thesis by (simp add: exactCeil_def)
qed

lemma taskMap_lookup_complete:
  assumes d: "distinct (map ident tasks)" and k: "k < length tasks"
    and nonneg: "0 \<le> effectiveDuration cr (tasks ! k)"
    and i: "i \<in> ident ` set tasks"
  shows "\<exists>t t'. Map_get i (buildTaskMap tasks) = Some t \<and>
           Map_get i (buildTaskMap (tasks[k := complete (tasks ! k)])) = Some t' \<and>
           effectiveDuration cr t' \<le> effectiveDuration cr t"
proof -
  let ?tasks' = "tasks[k := complete (tasks ! k)]"
  have d': "distinct (map ident ?tasks')" using d by (simp add: idents_complete)
  from i obtain j where j: "j < length tasks" "i = ident (tasks ! j)"
    by (auto simp: in_set_conv_nth)
  have g: "Map_get i (buildTaskMap tasks) = Some (tasks ! j)"
    using map_of_keyed [OF d, of "tasks ! j" "\<lambda>t. t"] j
    by (simp add: buildTaskMap_distinct [OF d])
  have id': "ident (?tasks' ! j) = i"
    using j k by (cases "j = k") (simp_all add: complete_fields)
  have "?tasks' ! j \<in> set ?tasks'" using j by simp
  from map_of_keyed [OF d' this, of "\<lambda>t. t"] id'
  have g': "Map_get i (buildTaskMap ?tasks') = Some (?tasks' ! j)"
    by (simp add: buildTaskMap_distinct [OF d'])
  have "effectiveDuration cr (?tasks' ! j) \<le> effectiveDuration cr (tasks ! j)"
    using j k nonneg by (cases "j = k") (simp_all add: complete_fields)
  with g g' show ?thesis by blast
qed

lemma exactCeil_range: "\<forall>d p. 0 \<le> d \<and> 0 \<le> p \<and> p \<le> 100 \<longrightarrow> 0 \<le> exactCeil d p"
  by (simp add: exactCeil_nonneg)
section \<open>Why the theorems ask for the data model\<close>

text \<open>
  With a repeated task id the sort's loop need not end: on \<open>duplicateIds\<close> the two ids
  release each other in turn for ever (\<open>(0 || 1) - 1\<close> is \<open>0\<close> again), and
  \<open>calculateCPM\<close> never returns. Where it does end, a node can have a negative float.
  And a progress above 100 makes the effective duration negative, so that completing the
  task lengthens the project.
\<close>

lemma kahnLoop_alternates:
  assumes "kahnLoop S I q s = Some y"
  shows "\<not> (S = [(''A'', [''B'']), (''B'', [''A''])] \<and> I = [(''A'', 0), (''B'', 0)] \<and>
      (q = [''A''] \<or> q = [''B'']))"
proof (rule kahnLoop.raw_induct
    [where P = "\<lambda>S I q s y. \<not> (S = [(''A'', [''B'']), (''B'', [''A''])] \<and>
        I = [(''A'', 0), (''B'', 0)] \<and> (q = [''A''] \<or> q = [''B'']))", OF _ assms])
  fix loop :: "(string, string list) Map \<Rightarrow> (string, int) Map \<Rightarrow> string list \<Rightarrow> string list
     \<Rightarrow> string list option"
  fix S :: "(string, string list) Map" and I :: "(string, int) Map"
    and q s y :: "string list"
  assume ih: "\<And>S I q s y. loop S I q s = Some y \<Longrightarrow>
      \<not> (S = [(''A'', [''B'']), (''B'', [''A''])] \<and> I = [(''A'', 0), (''B'', 0)] \<and>
         (q = [''A''] \<or> q = [''B'']))"
    and unfolded: "(case q of [] \<Rightarrow> Some s
      | i # rest \<Rightarrow>
          case fold relax (getOrEmpty i S) (I, rest) of
          (inDegree', queue') \<Rightarrow> loop S inDegree' queue' (s @ [i])) = Some y"
  show "\<not> (S = [(''A'', [''B'']), (''B'', [''A''])] \<and> I = [(''A'', 0), (''B'', 0)] \<and>
      (q = [''A''] \<or> q = [''B'']))"
  proof
    assume a: "S = [(''A'', [''B'']), (''B'', [''A''])] \<and> I = [(''A'', 0), (''B'', 0)] \<and>
      (q = [''A''] \<or> q = [''B''])"
    then consider "q = [''A'']" | "q = [''B'']" by blast
    then show False
    proof cases
      case 1
      with a unfolded have "loop S I [''B''] (s @ [''A'']) = Some y"
        by (simp add: getOrEmpty_def relax_def)
      from ih [OF this] a show False by blast
    next
      case 2
      with a unfolded have "loop S I [''A''] (s @ [''B'']) = Some y"
        by (simp add: getOrEmpty_def relax_def)
      from ih [OF this] a show False by blast
    qed
  qed
qed

lemma duplicate_ids_never_return: "calculateCPM ceilRemaining duplicateIds = None"
proof -
  let ?S = "[(''A'', [''B'']), (''B'', [''A''])]"
  have loop: "kahnLoop ?S [(''A'', 0), (''B'', 0)] [''B''] [''A''] = None"
  proof (cases "kahnLoop ?S [(''A'', 0), (''B'', 0)] [''B''] [''A'']")
    case None
    then show ?thesis .
  next
    case (Some y)
    from kahnLoop_alternates [OF this] show ?thesis by simp
  qed
  have start: "topologicalSort duplicateIds (buildPredecessors duplicateIds)
      (buildSuccessors duplicateIds) = kahnLoop ?S [(''A'', 0), (''B'', 1)] [''A''] []"
    by (simp add: topologicalSort_def duplicateIds_def mkTask_def buildPredecessors_def
         buildSuccessors_def initSuccessors_def addSuccessor_def initInDegree_def seedQueue_def
         getOrEmpty_def)
  have "kahnLoop ?S [(''A'', 0), (''B'', 1)] [''A''] [] =
          kahnLoop ?S [(''A'', 0), (''B'', 0)] [''B''] [''A'']"
    using kahnLoop.simps [of ?S "[(''A'', 0), (''B'', 1)]" "[''A'']" "[]"]
    by (simp add: getOrEmpty_def relax_def)
  with loop start show ?thesis by (simp add: calculateCPM_def duplicateIds_def)
qed

lemma out_of_range_progress:
  "calculateCPM doubleCeil outOfRange =
     Some (Inr \<lparr>nodes = [scheduled (mkTask ''A'' 10 [] ''in_progress'' 150) 0 (- 5) 0 (- 5)],
                criticalPath = [''A''], projectDuration = Num (- 5)\<rparr>) \<and>
   calculateCPM doubleCeil (outOfRange[0 := complete (outOfRange ! 0)]) =
     Some (Inr \<lparr>nodes = [scheduled (complete (mkTask ''A'' 10 [] ''in_progress'' 150)) 0 0 0 0],
                criticalPath = [''A''], projectDuration = Num 0\<rparr>)"
  by (simp add: eval_defs doubleCeil_values outOfRange_def complete_def)

lemma duplicate_ids_negative_float:
  "calculateCPM doubleCeil duplicateIdsEnding =
     Some (Inr \<lparr>nodes =
        [CPMInput.extend (mkTask ''A'' 2 [] ''not_started'' 0)
           (CPMNode.fields 0 2 (- 1) 1 (- 1) False),
         CPMInput.extend (mkTask ''B'' 1 [] ''not_started'' 0) (CPMNode.fields 0 1 1 2 1 False),
         CPMInput.extend (mkTask ''B'' 1 [] ''not_started'' 0) (CPMNode.fields 0 1 1 2 1 False)],
        criticalPath = [], projectDuration = Num 2\<rparr>)"
  by (simp add: eval_defs doubleCeil_values duplicateIdsEnding_def)

section \<open>The two defects in general\<close>

text \<open>
  The empty input has the explicit result with duration 0. Any other input with distinct
  ids on which nothing is scheduled has the duration \<open>-Infinity\<close>. And a task with a
  dependency on an id that is no task is never scheduled: its in-degree counts the
  dependency, and no task placed ever takes it off.
\<close>

lemma empty_input_duration_zero:
  "calculateCPM ceilRemaining [] =
     Some (Inr \<lparr>nodes = [], criticalPath = [], projectDuration = Num 0\<rparr>)"
  by (simp add: calculateCPM_def)

lemma nothing_scheduled_minus_infinity:
  assumes "distinct (map ident tasks)" "tasks \<noteq> []"
  shows "\<exists>r. calculateCPM ceilRemaining tasks = Some (Inr r) \<and>
           (nodes r = [] \<longrightarrow> criticalPath r = [] \<and> projectDuration r = NegInfinity)"
proof -
  from calculateCPM_facts [OF assms, of ceilRemaining] obtain r where
    r: "calculateCPM ceilRemaining tasks = Some (Inr r)"
       "criticalPath r = map ident (sort_key es (filter isCritical (nodes r)))"
       "projectDuration r = Math_max (map ef (nodes r))" by blast
  then have "nodes r = [] \<longrightarrow> criticalPath r = [] \<and> projectDuration r = NegInfinity"
    by (simp add: Math_max_def)
  with r(1) show ?thesis by blast
qed

lemma dangling_dependency_excluded:
  assumes d: "distinct (map ident tasks)" and t: "t \<in> set tasks"
    and z: "z \<in> set (dependencies t)" "z \<notin> ident ` set tasks"
  shows "\<exists>r. calculateCPM ceilRemaining tasks = Some (Inr r) \<and>
           ident t \<notin> set (map ident (nodes r))"
proof -
  from t have ne: "tasks \<noteq> []" by auto
  from calculateCPM_facts [OF d ne, of ceilRemaining] obtain r srt where
    r: "calculateCPM ceilRemaining tasks = Some (Inr r)" and topo: "topoOrder tasks srt"
    and ids: "map ident (nodes r) = srt" by blast
  from topo have sub: "set srt \<subseteq> ident ` set tasks"
    and closed: "ident t \<in> set srt \<longleftrightarrow> set (dependencies t) \<subseteq> set srt"
    using t by (auto simp: topoOrder_def)
  from z sub have "\<not> set (dependencies t) \<subseteq> set srt" by auto
  with closed ids r show ?thesis by auto
qed

subsection \<open>The evaluated inputs in double-precision arithmetic\<close>

text \<open>
  On the inputs evaluated below with \<open>exactCeil\<close> the engine's double-precision
  rounding gives the same result: their tasks are completed or have progress 0 or 50.
\<close>

lemma evaluated_inputs_in_doubles:
  "calculateCPM doubleCeil scenario1 = calculateCPM exactCeil scenario1"
  "calculateCPM doubleCeil (scenario1[1 := complete (scenario1 ! 1)]) =
     calculateCPM exactCeil (scenario1[1 := complete (scenario1 ! 1)])"
  "calculateCPM doubleCeil scenario2 = calculateCPM exactCeil scenario2"
  "calculateCPM doubleCeil tieBreak = calculateCPM exactCeil tieBreak"
  "calculateCPM doubleCeil cycleOnly = calculateCPM exactCeil cycleOnly"
  "calculateCPM doubleCeil dangling = calculateCPM exactCeil dangling"
  "calculateCPM doubleCeil danglingRemoved = calculateCPM exactCeil danglingRemoved"
  "calculateCPM doubleCeil cycleAndThree = calculateCPM exactCeil cycleAndThree"
  by (simp_all add: eval_defs doubleCeil_values scenario1_def scenario2_def tieBreak_def
      cycleOnly_def dangling_def danglingRemoved_def cycleAndThree_def complete_def)

section \<open>The claims\<close>

text \<open>
  Task ids are unique in the data model (\<open>id\<close>: unique identifier), and the sort's loop
  relies on it: with two tasks of one id it can run forever. The general theorems below
  therefore take \<open>distinct (map ident tasks)\<close>, and each states that the engine returns
  (\<open>Some (Inr r)\<close>: the loop ends and nothing is thrown) together with what it returns.
\<close>

subsection \<open>C1: no schedulable task\<close>

text \<open>
  C1. When no task can be scheduled the result should have no nodes, an empty critical path
  and \<open>projectDuration = 0\<close>. The engine does so for an empty input (the guard at the top
  of \<open>calculateCPM\<close>), but not when every task lies on a cycle: there the maximum over
  the empty node map is returned, and the project duration is \<open>-Infinity\<close>, for every
  rounding of the duration arithmetic.
\<close>

theorem C1_all_cyclic_minus_infinity:
  "calculateCPM ceilRemaining cycleOnly =
     Some (Inr \<lparr>nodes = [], criticalPath = [], projectDuration = NegInfinity\<rparr>)"
  by (simp add: eval_defs cycleOnly_def)

subsection \<open>C2: the second scenario\<close>

text \<open>
  C2, as stated, fails in its last part: in the second scenario \<open>B\<close> is not critical.
  \<open>B\<close> finishes at 2 and the project at 3 (through \<open>C\<close>), so \<open>B\<close> has one unit
  of float.
\<close>

theorem C2_B_not_critical_counterexample:
  "calculateCPM exactCeil scenario2 = Some (Inr scenario2_result) \<and>
   map_option isCritical (nodeById scenario2_result ''B'') = Some False"
  by (simp add: eval_defs scenario2_def scenario2_result_def nodeById_def)

text \<open>
  C2, amended: in the second scenario \<open>effectiveDuration(B) = 0\<close>, \<open>EF(B) = 2\<close> and
  \<open>projectDuration = 3\<close>, and \<open>B\<close> has float 1 and is not critical; the critical path
  is \<open>[A, C]\<close>.
\<close>

theorem C2_second_scenario:
  "calculateCPM exactCeil scenario2 = Some (Inr scenario2_result) \<and>
   map_option (effectiveDuration exactCeil) (nodeById scenario2_result ''B'') = Some 0 \<and>
   map_option ef (nodeById scenario2_result ''B'') = Some 2 \<and>
   projectDuration scenario2_result = Num 3 \<and>
   map_option float (nodeById scenario2_result ''B'') = Some 1 \<and>
   map_option isCritical (nodeById scenario2_result ''B'') = Some False \<and>
   criticalPath scenario2_result = [''A'', ''C'']"
  by (simp add: eval_defs scenario2_def scenario2_result_def nodeById_def)

subsection \<open>C3: the critical path\<close>

text \<open>
  C3, as stated, fails on the tie-break: on \<open>tieBreak\<close> the critical nodes \<open>C\<close> and
  \<open>D\<close> both start at 1, \<open>C\<close> comes first in the input, and the engine lists \<open>D\<close>
  first.
\<close>

theorem C3_input_order_counterexample:
  "calculateCPM exactCeil tieBreak = Some (Inr tieBreak_result) \<and>
   criticalPath tieBreak_result = [''R1'', ''R2'', ''D'', ''C''] \<and>
   specCriticalPath tieBreak tieBreak_result = [''R1'', ''R2'', ''C'', ''D'']"
  by (simp add: eval_defs tieBreak_def tieBreak_result_def specCriticalPath_def nodeById_def)

text \<open>
  C3, amended: the critical path holds exactly the ids of the nodes with
  \<open>isCritical\<close>, ascending by \<open>ES\<close>, ties broken by the order of the returned nodes
  (the topological order in which the sort placed them): it is the stable sort by \<open>es\<close>
  of the critical nodes of \<open>nodes\<close>.
\<close>

theorem C3_critical_path_order:
  assumes "distinct (map ident tasks)"
  shows "\<exists>r. calculateCPM ceilRemaining tasks = Some (Inr r) \<and>
           criticalPath r = map ident (sort_key es (filter isCritical (nodes r)))"
proof (cases "tasks = []")
  case True
  then show ?thesis by (simp add: calculateCPM_def)
next
  case False
  from calculateCPM_facts [OF assms False, of ceilRemaining] show ?thesis by blast
qed

text \<open>
  C3, amended: the theorem at the first scenario.
\<close>

theorem C3_critical_path_order_witness:
  "distinct (map ident scenario1) \<and>
   (\<exists>r. calculateCPM exactCeil scenario1 = Some (Inr r) \<and>
        criticalPath r = map ident (sort_key es (filter isCritical (nodes r))))"
  using C3_critical_path_order [OF scenario1_distinct, of exactCeil] scenario1_distinct by simp

subsection \<open>C4: the node relations\<close>

text \<open>
  The four relations hold for whatever value the rounded-up remaining duration has.
\<close>

lemma node_relations_any_rounding:
  assumes "distinct (map ident tasks)"
  shows "\<exists>r. calculateCPM ceilRemaining tasks = Some (Inr r) \<and>
           (\<forall>n \<in> set (nodes r).
              ef n = es n + effectiveDuration ceilRemaining n \<and>
              ls n = lf n - effectiveDuration ceilRemaining n \<and>
              float n = ls n - es n \<and>
              (isCritical n \<longleftrightarrow> float n = 0) \<and>
              effectiveDuration ceilRemaining n =
                (if status n = ''completed'' then 0
                 else ceilRemaining (duration n) (progress n)))"
proof (cases "tasks = []")
  case True
  then show ?thesis by (simp add: calculateCPM_def)
next
  case False
  from calculateCPM_facts [OF assms False, of ceilRemaining] obtain r where
    r: "calculateCPM ceilRemaining tasks = Some (Inr r)"
       "\<forall>n \<in> set (nodes r). nodeOK ceilRemaining n" by blast
  have "\<forall>n \<in> set (nodes r).
              ef n = es n + effectiveDuration ceilRemaining n \<and>
              ls n = lf n - effectiveDuration ceilRemaining n \<and>
              float n = ls n - es n \<and>
              (isCritical n \<longleftrightarrow> float n = 0) \<and>
              effectiveDuration ceilRemaining n =
                (if status n = ''completed'' then 0
                 else ceilRemaining (duration n) (progress n))"
    using r(2) by (simp add: nodeOK_def effectiveDuration_def)
  with r(1) show ?thesis by blast
qed

text \<open>
  In the engine, for every task list with unique ids, every node of the result satisfies
  the four relations with the effective duration that the engine computes: 0 for a
  completed task and otherwise \<open>Math.ceil(duration * (1 - progress / 100))\<close> with the
  quotient, the difference and the product each rounded to the nearest double. For a
  duration from 0 to below \<open>2^44\<close> and a progress from 0 to 100 that value is the exact
  ceiling or one more.
\<close>

lemma node_relations_doubles:
  assumes "distinct (map ident tasks)"
  shows "\<exists>r. calculateCPM doubleCeil tasks = Some (Inr r) \<and>
           (\<forall>n \<in> set (nodes r).
              ef n = es n + effectiveDuration doubleCeil n \<and>
              ls n = lf n - effectiveDuration doubleCeil n \<and>
              float n = ls n - es n \<and>
              (isCritical n \<longleftrightarrow> float n = 0) \<and>
              effectiveDuration doubleCeil n =
                (if status n = ''completed'' then 0
                 else \<lceil>fl (of_int (duration n) * fl (1 - fl (of_int (progress n) / 100)))\<rceil>) \<and>
              (0 \<le> duration n \<and> duration n < 2 ^ 44 \<and> 0 \<le> progress n \<and> progress n \<le> 100 \<longrightarrow>
                 specEffectiveDuration n \<le> effectiveDuration doubleCeil n \<and>
                 effectiveDuration doubleCeil n \<le> specEffectiveDuration n + 1))"
proof -
  have bracket: "specEffectiveDuration n \<le> effectiveDuration doubleCeil n \<and>
      effectiveDuration doubleCeil n \<le> specEffectiveDuration n + 1"
    if "0 \<le> duration n" "duration n < 2 ^ 44" "0 \<le> progress n" "progress n \<le> 100"
    for n :: CPMNode
    using doubleCeil_bracket [OF that]
    by (simp add: specEffectiveDuration_exactCeil effectiveDuration_def)
  have formula: "effectiveDuration doubleCeil n =
      (if status n = ''completed'' then 0
       else \<lceil>fl (of_int (duration n) * fl (1 - fl (of_int (progress n) / 100)))\<rceil>)"
    for n :: CPMNode
    by (simp add: effectiveDuration_def doubleCeil_def)
  show ?thesis
  proof (cases "tasks = []")
    case True
    then show ?thesis by (simp add: calculateCPM_def)
  next
    case False
    from calculateCPM_facts [OF assms False, of doubleCeil] obtain r where
      r: "calculateCPM doubleCeil tasks = Some (Inr r)"
         "\<forall>n \<in> set (nodes r). nodeOK doubleCeil n" by blast
    have "\<forall>n \<in> set (nodes r).
              ef n = es n + effectiveDuration doubleCeil n \<and>
              ls n = lf n - effectiveDuration doubleCeil n \<and>
              float n = ls n - es n \<and>
              (isCritical n \<longleftrightarrow> float n = 0) \<and>
              effectiveDuration doubleCeil n =
                (if status n = ''completed'' then 0
                 else \<lceil>fl (of_int (duration n) * fl (1 - fl (of_int (progress n) / 100)))\<rceil>) \<and>
              (0 \<le> duration n \<and> duration n < 2 ^ 44 \<and> 0 \<le> progress n \<and> progress n \<le> 100 \<longrightarrow>
                 specEffectiveDuration n \<le> effectiveDuration doubleCeil n \<and>
                 effectiveDuration doubleCeil n \<le> specEffectiveDuration n + 1)"
    proof
      fix n assume "n \<in> set (nodes r)"
      with r(2) have "nodeOK doubleCeil n" by blast
      then show "ef n = es n + effectiveDuration doubleCeil n \<and>
              ls n = lf n - effectiveDuration doubleCeil n \<and>
              float n = ls n - es n \<and>
              (isCritical n \<longleftrightarrow> float n = 0) \<and>
              effectiveDuration doubleCeil n =
                (if status n = ''completed'' then 0
                 else \<lceil>fl (of_int (duration n) * fl (1 - fl (of_int (progress n) / 100)))\<rceil>) \<and>
              (0 \<le> duration n \<and> duration n < 2 ^ 44 \<and> 0 \<le> progress n \<and> progress n \<le> 100 \<longrightarrow>
                 specEffectiveDuration n \<le> effectiveDuration doubleCeil n \<and>
                 effectiveDuration doubleCeil n \<le> specEffectiveDuration n + 1)"
        using formula [of n] bracket [of n] unfolding nodeOK_def by blast
    qed
    with r(1) show ?thesis by blast
  qed
qed

text \<open>
  C4 fails in its formula for the effective duration. For a task of 10 days at 70 percent
  the engine computes \<open>1 - 70 / 100\<close> as \<open>0.30000000000000004\<close> and the product as
  \<open>3.0000000000000004\<close>, whose ceiling is 4: the result has the single node with
  \<open>ES = 0\<close>, \<open>EF = 4\<close>, \<open>LS = 0\<close>, \<open>LF = 4\<close> and the project duration 4, while
  \<open>ceil(10 * (1 - 70/100))\<close> is 3, so that \<open>EF\<close> is not \<open>ES\<close> plus the effective
  duration of the claim. The same happens at 25 days and 44 percent: 15 instead of 14.
\<close>

theorem C4_rounding_adds_a_day:
  "calculateCPM doubleCeil roundingCase =
     Some (Inr \<lparr>nodes = [scheduled (mkTask ''A'' 10 [] ''in_progress'' 70) 0 4 0 4],
                criticalPath = [''A''], projectDuration = Num 4\<rparr>) \<and>
   specEffectiveDuration (scheduled (mkTask ''A'' 10 [] ''in_progress'' 70) 0 4 0 4) = 3 \<and>
   ef (scheduled (mkTask ''A'' 10 [] ''in_progress'' 70) 0 4 0 4) \<noteq>
     es (scheduled (mkTask ''A'' 10 [] ''in_progress'' 70) 0 4 0 4) + specEffectiveDuration (scheduled (mkTask ''A'' 10 [] ''in_progress'' 70) 0 4 0 4) \<and>
   doubleCeil 25 44 = 15 \<and>
   specEffectiveDuration (mkTask ''A'' 25 [] ''in_progress'' 44) = 14"
proof -
  have a: "doubleCeil 25 44 = 15" by code_simp
  have b: "specEffectiveDuration (mkTask ''A'' 25 [] ''in_progress'' 44) = 14"
    by (simp add: specEffectiveDuration_exactCeil exactCeil_def mkTask_def)
  show ?thesis
    using a b
    by (simp add: eval_defs doubleCeil_values roundingCase_def specEffectiveDuration_exactCeil)
qed

subsection \<open>C5: non-negative float\<close>

text \<open>
  C5. For tasks with non-negative durations and progress between 0 and 100, every node of
  the result has \<open>float \<ge> 0\<close>. (The proof needs neither range: the latest finish of
  a node is never before its earliest finish.)
\<close>

theorem C5_float_nonnegative:
  assumes "distinct (map ident tasks)"
    and "\<forall>t \<in> set tasks. 0 \<le> duration t \<and> 0 \<le> progress t \<and> progress t \<le> 100"
  shows "\<exists>r. calculateCPM ceilRemaining tasks = Some (Inr r) \<and>
           (\<forall>n \<in> set (nodes r). 0 \<le> float n)"
proof (cases "tasks = []")
  case True
  then show ?thesis by (simp add: calculateCPM_def)
next
  case False
  from calculateCPM_facts [OF assms(1) False, of ceilRemaining] obtain r where
    r: "calculateCPM ceilRemaining tasks = Some (Inr r)"
       "\<forall>n \<in> set (nodes r). nodeOK ceilRemaining n" by blast
  have "\<forall>n \<in> set (nodes r). 0 \<le> float n"
  proof
    fix n assume "n \<in> set (nodes r)"
    with r(2) have "nodeOK ceilRemaining n" by blast
    then show "0 \<le> float n" unfolding nodeOK_def by linarith
  qed
  with r(1) show ?thesis by blast
qed

text \<open>
  C5: the theorem at the first scenario.
\<close>

theorem C5_float_nonnegative_witness:
  "distinct (map ident scenario1) \<and>
   list_all (\<lambda>t. 0 \<le> duration t \<and> 0 \<le> progress t \<and> progress t \<le> 100) scenario1 \<and>
   (\<exists>r. calculateCPM exactCeil scenario1 = Some (Inr r) \<and> (\<forall>n \<in> set (nodes r). 0 \<le> float n))"
  using C5_float_nonnegative [OF scenario1_distinct scenario1_ranges, of exactCeil]
    scenario1_distinct scenario1_ranges
  by (simp add: list_all_iff)

subsection \<open>C6: completing a task\<close>

text \<open>
  C6. Changing the status of the task at position \<open>k\<close> to \<open>completed\<close>, every other
  field of every task kept, never increases the project duration, and the task's effective
  duration becomes 0 whatever its progress: its node, when it is scheduled, has
  \<open>EF = ES\<close>. The task has a duration and a progress in the data model's ranges, on
  which \<open>Math.ceil(duration * (1 - progress / 100))\<close> is not negative.
\<close>

theorem C6_completed_task_neutrality:
  assumes d: "distinct (map ident tasks)" and k: "k < length tasks"
    and range: "0 \<le> duration (tasks ! k)" "0 \<le> progress (tasks ! k)" "progress (tasks ! k) \<le> 100"
    and ceil: "\<forall>d p. 0 \<le> d \<and> 0 \<le> p \<and> p \<le> 100 \<longrightarrow> 0 \<le> ceilRemaining d p"
  shows "\<exists>r r'. calculateCPM ceilRemaining tasks = Some (Inr r) \<and>
           calculateCPM ceilRemaining (tasks[k := complete (tasks ! k)]) = Some (Inr r') \<and>
           jsnum_le (projectDuration r') (projectDuration r) \<and>
           effectiveDuration ceilRemaining (complete (tasks ! k)) = 0 \<and>
           (\<forall>n \<in> set (nodes r'). ident n = ident (tasks ! k) \<longrightarrow>
              status n = ''completed'' \<and> effectiveDuration ceilRemaining n = 0 \<and> ef n = es n)"
proof -
  let ?cr = ceilRemaining
  let ?tasks' = "tasks[k := complete (tasks ! k)]"
  let ?P = "buildPredecessors tasks" and ?S = "buildSuccessors tasks"
  have d': "distinct (map ident ?tasks')" using d by (simp add: idents_complete)
  have ne: "tasks \<noteq> []" "?tasks' \<noteq> []" using k by auto
  have nonneg: "0 \<le> effectiveDuration ?cr (tasks ! k)"
    using range ceil by (simp add: effectiveDuration_def)
  have P': "buildPredecessors ?tasks' = ?P"
    by (simp add: buildPredecessors_edges edges_complete)
  have S': "buildSuccessors ?tasks' = ?S"
    by (simp add: buildSuccessors_edges edges_complete)
  from topologicalSort_total [OF d] obtain srt where
    srt: "topologicalSort tasks ?P ?S = Some srt" "topoOrder tasks srt" by blast
  from topologicalSort_total [OF d'] obtain srt' where
    srt': "topologicalSort ?tasks' (buildPredecessors ?tasks') (buildSuccessors ?tasks') = Some srt'"
      "topoOrder ?tasks' srt'" by blast
  from srt(1) srt'(1) topologicalSort_edges [OF edges_complete, of tasks k]
  have same: "srt' = srt" by simp
  from schedule_facts [OF d srt(2), of ?cr] obtain r where
    r: "schedule ?cr (buildTaskMap tasks) ?P ?S srt = Inr r" by blast
  from schedule_facts [OF d' srt'(2), of ?cr] obtain r' where
    r': "schedule ?cr (buildTaskMap ?tasks') ?P ?S srt = Inr r'"
    and tr': "\<forall>n \<in> set (nodes r'). CPMInput.truncate n \<in> set ?tasks' \<and> nodeOK ?cr n"
    unfolding same P' S' by blast
  have c: "calculateCPM ?cr tasks = Some (Inr r)"
    using srt(1) r ne by (simp add: calculateCPM_def)
  have c': "calculateCPM ?cr ?tasks' = Some (Inr r')"
    using srt'(1) r' ne same P' S' by (simp add: calculateCPM_def)
  from schedule_projectDuration [OF r] obtain nm0 nm1 where
    nm: "initNodes (buildTaskMap tasks) srt = Inr nm0"
        "forEach (forwardStep ?cr ?P) srt nm0 = Inr nm1"
        "projectDuration r = Math_max (map (\<lambda>(k, n). ef n) nm1)" by blast
  from schedule_projectDuration [OF r'] obtain nm0' nm1' where
    nm': "initNodes (buildTaskMap ?tasks') srt = Inr nm0'"
         "forEach (forwardStep ?cr ?P) srt nm0' = Inr nm1'"
         "projectDuration r' = Math_max (map (\<lambda>(k, n). ef n) nm1')" by blast
  have lookups: "\<forall>i \<in> set srt. \<exists>t t'. Map_get i (buildTaskMap tasks) = Some t \<and>
           Map_get i (buildTaskMap ?tasks') = Some t' \<and>
           effectiveDuration ?cr t' \<le> effectiveDuration ?cr t"
  proof
    fix i assume "i \<in> set srt"
    with srt(2) have "i \<in> ident ` set tasks" by (auto simp: topoOrder_def)
    from taskMap_lookup_complete [OF d k nonneg this]
    show "\<exists>t t'. Map_get i (buildTaskMap tasks) = Some t \<and>
           Map_get i (buildTaskMap ?tasks') = Some t' \<and>
           effectiveDuration ?cr t' \<le> effectiveDuration ?cr t" .
  qed
  have "dominates ?cr [] []" by (simp add: dominates_def)
  from initNodes_mono_gen [OF lookups this nm(1) [unfolded initNodes_def] nm'(1) [unfolded initNodes_def]]
  have "dominates ?cr nm0 nm0'" .
  from forward_mono [OF this nm(2) nm'(2)] have "dominates ?cr nm1 nm1'" .
  from dominates_Math_max [OF this] nm(3) nm'(3)
  have le: "jsnum_le (projectDuration r') (projectDuration r)" by simp
  have fin: "\<forall>n \<in> set (nodes r'). ident n = ident (tasks ! k) \<longrightarrow>
              status n = ''completed'' \<and> effectiveDuration ?cr n = 0 \<and> ef n = es n"
  proof (intro ballI impI)
    fix n assume n: "n \<in> set (nodes r')" "ident n = ident (tasks ! k)"
    with tr' have t: "CPMInput.truncate n \<in> set ?tasks'" and ok: "nodeOK ?cr n" by auto
    have "?tasks' ! k \<in> set ?tasks'" using k by (intro nth_mem) simp
    moreover have "ident (CPMInput.truncate n) = ident (?tasks' ! k)"
      using n(2) k by (simp add: truncate_fields complete_fields)
    ultimately have "CPMInput.truncate n = ?tasks' ! k"
      using task_by_ident [OF d' t] by blast
    then have "status (CPMInput.truncate n) = ''completed''"
      using k by (simp add: complete_fields)
    then have st: "status n = ''completed''" by (simp add: truncate_fields)
    then have e0: "effectiveDuration ?cr n = 0" by (simp add: effectiveDuration_def)
    with ok have "ef n = es n" by (simp add: nodeOK_def)
    with st e0 show "status n = ''completed'' \<and> effectiveDuration ?cr n = 0 \<and> ef n = es n"
      by simp
  qed
  from c c' le fin show ?thesis by (auto simp: complete_fields)
qed

text \<open>
  C6: the theorem at the first scenario, completing \<open>B\<close>, with exact arithmetic.
\<close>

theorem C6_completed_task_neutrality_witness:
  "distinct (map ident scenario1) \<and> (1::nat) < length scenario1 \<and>
   0 \<le> duration (scenario1 ! 1) \<and> 0 \<le> progress (scenario1 ! 1) \<and>
   progress (scenario1 ! 1) \<le> 100 \<and>
   (\<exists>r r'. calculateCPM exactCeil scenario1 = Some (Inr r) \<and>
      calculateCPM exactCeil (scenario1[1 := complete (scenario1 ! 1)]) = Some (Inr r') \<and>
      jsnum_le (projectDuration r') (projectDuration r) \<and>
      effectiveDuration exactCeil (complete (scenario1 ! 1)) = 0 \<and>
      (\<forall>n \<in> set (nodes r'). ident n = ident (scenario1 ! 1) \<longrightarrow>
         status n = ''completed'' \<and> effectiveDuration exactCeil n = 0 \<and> ef n = es n))"
proof -
  have h: "(1::nat) < length scenario1" "0 \<le> duration (scenario1 ! 1)"
    "0 \<le> progress (scenario1 ! 1)" "progress (scenario1 ! 1) \<le> 100"
    by (simp_all add: scenario1_def mkTask_def)
  from C6_completed_task_neutrality [OF scenario1_distinct h exactCeil_range]
  show ?thesis using scenario1_distinct h by blast
qed

subsection \<open>C7: cycle tolerance\<close>

text \<open>
  C7. Five tasks with distinct ids, in any order: \<open>a\<close> and \<open>b\<close> depend on each other,
  and \<open>t1\<close>, \<open>t2\<close>, \<open>t3\<close> depend on nothing but one another, acyclically (named in
  a topological order: \<open>t1\<close> on nothing, \<open>t2\<close> at most on \<open>t1\<close>, \<open>t3\<close> at most
  on \<open>t1\<close> and \<open>t2\<close>). Then the engine returns, without an exception, a result whose
  three nodes are exactly \<open>t1\<close>, \<open>t2\<close>, \<open>t3\<close>, with a finite project duration.
\<close>

theorem C7_cycle_tolerance:
  assumes d: "distinct (map ident tasks)"
    and tasks: "set tasks = {a, b, t1, t2, t3}"
    and ids: "distinct [ident a, ident b, ident t1, ident t2, ident t3]"
    and ab: "ident b \<in> set (dependencies a)" and ba: "ident a \<in> set (dependencies b)"
    and d1: "dependencies t1 = []"
    and d2: "set (dependencies t2) \<subseteq> {ident t1}"
    and d3: "set (dependencies t3) \<subseteq> {ident t1, ident t2}"
  shows "\<exists>r pd. calculateCPM ceilRemaining tasks = Some (Inr r) \<and>
           set (map ident (nodes r)) = {ident t1, ident t2, ident t3} \<and>
           length (nodes r) = 3 \<and>
           CPMInput.truncate ` set (nodes r) = {t1, t2, t3} \<and>
           projectDuration r = Num pd"
proof -
  from tasks have ne: "tasks \<noteq> []" by auto
  from calculateCPM_facts [OF d ne, of ceilRemaining] obtain r srt where
    r: "calculateCPM ceilRemaining tasks = Some (Inr r)" and topo: "topoOrder tasks srt"
    and srt: "map ident (nodes r) = srt"
    and tr: "\<forall>n \<in> set (nodes r). CPMInput.truncate n \<in> set tasks"
    and pd: "projectDuration r = Math_max (map ef (nodes r))" by blast
  from topo have ds: "distinct srt" and sub: "set srt \<subseteq> ident ` set tasks"
    and closed: "\<And>t. t \<in> set tasks \<Longrightarrow> ident t \<in> set srt \<longleftrightarrow> set (dependencies t) \<subseteq> set srt"
    by (simp_all add: topoOrder_def)
  have mem: "a \<in> set tasks" "b \<in> set tasks" "t1 \<in> set tasks" "t2 \<in> set tasks" "t3 \<in> set tasks"
    using tasks by simp_all
  have i1: "ident t1 \<in> set srt" using closed [OF mem(3)] d1 by simp
  have i2: "ident t2 \<in> set srt" using closed [OF mem(4)] d2 i1 by auto
  have i3: "ident t3 \<in> set srt" using closed [OF mem(5)] d3 i1 i2 by auto
  have na: "ident a \<notin> set srt" by (rule cycle_not_sorted [OF topo mem(1,2) ab ba])
  have nb: "ident b \<notin> set srt" by (rule cycle_not_sorted [OF topo mem(2,1) ba ab])
  have set_srt: "set srt = {ident t1, ident t2, ident t3}"
    using sub tasks i1 i2 i3 na nb by auto
  have len: "length srt = 3"
  proof -
    have "length srt = card (set srt)" using ds by (simp add: distinct_card)
    also have "\<dots> = 3" using ids by (simp add: set_srt)
    finally show ?thesis .
  qed
  have len_nodes: "length (nodes r) = 3" using len srt by (metis length_map)
  have trunc: "CPMInput.truncate ` set (nodes r) = {t1, t2, t3}"
  proof
    show "CPMInput.truncate ` set (nodes r) \<subseteq> {t1, t2, t3}"
    proof
      fix t assume "t \<in> CPMInput.truncate ` set (nodes r)"
      then obtain n where n: "n \<in> set (nodes r)" "t = CPMInput.truncate n" by auto
      with tr have tt: "t \<in> set tasks" by simp
      from n have "ident t \<in> set srt" using srt by (auto simp: truncate_fields)
      with na nb have "ident t \<noteq> ident a" "ident t \<noteq> ident b" by auto
      with tt tasks show "t \<in> {t1, t2, t3}" by auto
    qed
  next
    show "{t1, t2, t3} \<subseteq> CPMInput.truncate ` set (nodes r)"
    proof
      fix t assume t: "t \<in> {t1, t2, t3}"
      then have tt: "t \<in> set tasks" using tasks by auto
      from t i1 i2 i3 have "ident t \<in> set (map ident (nodes r))" using srt by auto
      then obtain n where n: "n \<in> set (nodes r)" "ident n = ident t" by auto
      with tr have "CPMInput.truncate n \<in> set tasks" "ident (CPMInput.truncate n) = ident t"
        by (simp_all add: truncate_fields)
      with tt have "CPMInput.truncate n = t" using task_by_ident [OF d] by blast
      with n(1) show "t \<in> CPMInput.truncate ` set (nodes r)" by auto
    qed
  qed
  have "nodes r \<noteq> []" using len_nodes by auto
  then have "projectDuration r = Num (Max (set (map ef (nodes r))))"
    using pd by (simp add: Math_max_def)
  with r srt set_srt len_nodes trunc show ?thesis by auto
qed

text \<open>
  C7: the theorem at a two-cycle interleaved with a three-task chain.
\<close>

theorem C7_cycle_tolerance_witness:
  "distinct (map ident cycleAndThree) \<and>
   (\<exists>r pd. calculateCPM exactCeil cycleAndThree = Some (Inr r) \<and>
      set (map ident (nodes r)) = {''T1'', ''T2'', ''T3''} \<and>
      length (nodes r) = 3 \<and>
      CPMInput.truncate ` set (nodes r) =
        {mkTask ''T1'' 4 [] ''not_started'' 0, mkTask ''T2'' 5 [''T1''] ''in_progress'' 50,
         mkTask ''T3'' 1 [''T1'', ''T2''] ''not_started'' 0} \<and>
      projectDuration r = Num pd)"
  using C7_cycle_tolerance [of cycleAndThree "mkTask ''A'' 2 [''B''] ''not_started'' 0"
      "mkTask ''B'' 3 [''A''] ''not_started'' 0"
      "mkTask ''T1'' 4 [] ''not_started'' 0" "mkTask ''T2'' 5 [''T1''] ''in_progress'' 50"
      "mkTask ''T3'' 1 [''T1'', ''T2''] ''not_started'' 0" exactCeil]
  by (simp add: cycleAndThree_def mkTask_def insert_commute)

subsection \<open>C8: the resource analysis\<close>


text \<open>
  The entries and the messages, whatever the threshold test is.
\<close>

lemma resource_analysis_any_threshold:
  "developerLoad (analyzeResourceAllocation exceeds r) =
     map (\<lambda>a. toEntry (a, loadOf (nodes r) a)) (assignees (nodes r)) \<and>
   recommendations (analyzeResourceAllocation exceeds r) =
     concat (map (\<lambda>a.
        (if 3 \<le> criticalTasks (loadOf (nodes r) a)
         then [loadName (loadOf (nodes r) a) @ '' ('' @ a @ '') has ''
                 @ showInt (criticalTasks (loadOf (nodes r) a))
                 @ '' critical tasks. Consider redistributing to reduce risk.'']
         else [])
        @ (if exceeds (totalDuration (loadOf (nodes r) a)) (projectDuration r)
           then [loadName (loadOf (nodes r) a) @ '' is assigned ''
                   @ showInt (totalDuration (loadOf (nodes r) a)) @ '' days of work across ''
                   @ showInt (loadTasks (loadOf (nodes r) a))
                   @ '' tasks. This exceeds 70% of the project timeline.'']
           else []))
       (assignees (nodes r)))"
  unfolding analyzeResourceAllocation_def recommend_def criticalMessage_def overloadMessage_def
  by (simp add: fold_accumulate comp_def)



subsection \<open>C9: a dependency on an id that is no task\<close>

text \<open>
  C9. A task with a dependency on an id outside the task set should be scheduled as if the
  dependency were absent. The engine counts the dependency in the task's in-degree, which
  then never reaches zero: \<open>B\<close> is left out of the result, where without the dependency
  it is scheduled from 2 to 5.
\<close>

theorem C9_dangling_dependency_drops_task:
  "calculateCPM exactCeil dangling =
     Some (Inr \<lparr>nodes = [scheduled (mkTask ''A'' 2 [] ''not_started'' 0) 0 2 0 2],
                criticalPath = [''A''], projectDuration = Num 2\<rparr>) \<and>
   calculateCPM exactCeil danglingRemoved =
     Some (Inr \<lparr>nodes = [scheduled (mkTask ''A'' 2 [] ''not_started'' 0) 0 2 0 2,
                         scheduled (mkTask ''B'' 3 [''A''] ''not_started'' 0) 2 5 2 5],
                criticalPath = [''A'', ''B''], projectDuration = Num 5\<rparr>)"
  by (simp add: eval_defs dangling_def danglingRemoved_def)

subsection \<open>C10: the empty assignee id\<close>

text \<open>
  C10. A node whose assignee id is the empty string is treated as unassigned: the analysis
  is the same as with the id absent from such nodes, the same as without such nodes, and
  no entry has the empty string as its developer id.
\<close>

theorem C10_empty_assignee_is_unassigned:
  "analyzeResourceAllocation exceeds r =
     analyzeResourceAllocation exceeds (r\<lparr>nodes := map unassignEmpty (nodes r)\<rparr>) \<and>
   analyzeResourceAllocation exceeds r =
     analyzeResourceAllocation exceeds
       (r\<lparr>nodes := filter (\<lambda>n. assigneeId n \<noteq> Some []) (nodes r)\<rparr>) \<and>
   [] \<notin> set (map developerId (developerLoad (analyzeResourceAllocation exceeds r)))"
proof -
  have c1: "analyzeResourceAllocation exceeds r =
     analyzeResourceAllocation exceeds (r\<lparr>nodes := map unassignEmpty (nodes r)\<rparr>)"
    by (simp add: analyzeResourceAllocation_def fold_accumulate_unassignEmpty)
  have c2: "analyzeResourceAllocation exceeds r =
     analyzeResourceAllocation exceeds
       (r\<lparr>nodes := filter (\<lambda>n. assigneeId n \<noteq> Some []) (nodes r)\<rparr>)"
    by (simp add: analyzeResourceAllocation_def fold_accumulate_skip)
  have "map developerId (developerLoad (analyzeResourceAllocation exceeds r))
          = assignees (nodes r)"
    by (simp add: analyzeResourceAllocation_def fold_accumulate comp_def developerId_toEntry)
  then have c3: "[] \<notin> set (map developerId (developerLoad (analyzeResourceAllocation exceeds r)))"
    using assignees_nonempty [of "nodes r"] by simp
  from c1 c2 c3 show ?thesis by blast
qed

end
